theory Spec2Isabelle
  imports Main "HOL-Library.Word"
begin

section \<open>Python strings\<close>

text \<open>
  A Python \<open>str\<close> is a sequence of Unicode code points, so a string is a list of
  code-point numbers here (not of bytes). \<open>u\<close> reads an ASCII literal.
\<close>

type_synonym ustr = "nat list"

definition u :: "string \<Rightarrow> ustr" where
  "u s = map of_char s"

text \<open>
  \<open>str.isspace\<close> on one character, which is also the class \<open>\s\<close> of \<open>re\<close> on a
  \<open>str\<close> pattern and the set that \<open>str.strip()\<close> removes: tab to carriage return,
  the four separators 0x1C to 0x1F, space, NEL, no-break space, and the Unicode spaces
  U+1680, U+2000 to U+200A, U+2028, U+2029, U+202F, U+205F, U+3000.
\<close>

definition isspace :: "nat \<Rightarrow> bool" where
  "isspace c \<longleftrightarrow>
     (9 \<le> c \<and> c \<le> 13) \<or> (28 \<le> c \<and> c \<le> 32) \<or> c = 133 \<or> c = 160 \<or> c = 5760 \<or>
     (8192 \<le> c \<and> c \<le> 8202) \<or> c = 8232 \<or> c = 8233 \<or> c = 8239 \<or> c = 8287 \<or> c = 12288"

definition lstrip :: "ustr \<Rightarrow> ustr" where
  "lstrip s = dropWhile isspace s"

definition rstrip :: "ustr \<Rightarrow> ustr" where
  "rstrip s = rev (dropWhile isspace (rev s))"

text \<open>\<open>s.strip()\<close>\<close>

definition strip :: "ustr \<Rightarrow> ustr" where
  "strip s = rstrip (lstrip s)"

text \<open>\<open>s.replace(old, new)\<close> for one-character \<open>old\<close> and \<open>new\<close>.\<close>

definition replace_char :: "nat \<Rightarrow> nat \<Rightarrow> ustr \<Rightarrow> ustr" where
  "replace_char old new s = map (\<lambda>c. if c = old then new else c) s"

definition NL :: nat where "NL = 10"

definition SP :: nat where "SP = 32"

text \<open>\<open>s.split(sep)\<close> for a one-character \<open>sep\<close>: it never returns the empty list.\<close>

fun split_on :: "nat \<Rightarrow> ustr \<Rightarrow> ustr list" where
  "split_on sep [] = [[]]"
| "split_on sep (c # cs) =
     (if c = sep then [] # split_on sep cs
      else (c # hd (split_on sep cs)) # tl (split_on sep cs))"

fun join :: "ustr \<Rightarrow> ustr list \<Rightarrow> ustr" where
  "join sep [] = []"
| "join sep [x] = x"
| "join sep (x # y # ys) = x @ sep @ join sep (y # ys)"

section \<open>Text utilities\<close>

text \<open>
  \<open>re.sub(r"\s+", " ", s)\<close>: scanning from the left, each maximal run of whitespace
  becomes one space.
\<close>

function sub_ws :: "ustr \<Rightarrow> ustr" where
  "sub_ws [] = []"
| "sub_ws (c # cs) = (if isspace c then SP # sub_ws (dropWhile isspace cs) else c # sub_ws cs)"
  by pat_completeness auto
termination
  by (relation "measure length") (auto simp: le_imp_less_Suc length_dropWhile_le)

text \<open>
  \<open>re.sub(r"\n{3,}", "\n\n", s)\<close>: at a position where three or more newlines
  start, the (greedy) match takes the whole run and two newlines replace it; elsewhere
  the character is copied.
\<close>

function sub_nl3 :: "ustr \<Rightarrow> ustr" where
  "sub_nl3 [] = []"
| "sub_nl3 (c # cs) =
     (if 3 \<le> length (takeWhile (\<lambda>x. x = NL) (c # cs))
      then NL # NL # sub_nl3 (dropWhile (\<lambda>x. x = NL) cs)
      else c # sub_nl3 cs)"
  by pat_completeness auto
termination
  by (relation "measure length") (auto simp: le_imp_less_Suc length_dropWhile_le)

lemmas sub_nl3_Cons = sub_nl3.simps(2)

declare sub_nl3.simps(2) [simp del]

text \<open>
  \<^verbatim>\<open>
  def clean_spaces(s: str) -> str:
      return re.sub(r"\s+", " ", s).strip()

  def normalize_paragraphs(raw_text: str) -> str:
      lines = [re.sub(r"\s+", " ", ln).strip() for ln in raw_text.split("\n")]
      text = "\n".join(lines)
      return re.sub(r"\n{3,}", "\n\n", text).strip()
  \<close>
\<close>

definition clean_spaces :: "ustr \<Rightarrow> ustr" where
  "clean_spaces s = strip (sub_ws s)"

definition normalize_paragraphs :: "ustr \<Rightarrow> ustr" where
  "normalize_paragraphs raw_text =
     (let lines = map (\<lambda>ln. strip (sub_ws ln)) (split_on NL raw_text);
          text = join [NL] lines
      in strip (sub_nl3 text))"

text \<open>
  \<^verbatim>\<open>
  def safe_filename(name: str) -> str:
      for ch in ['/', '\\', ':', '*', '?', '"', '<', '>', '|']:
          name = name.replace(ch, '_')
      return name.strip()
  \<close>
\<close>

definition unsafe_chars :: "nat list" where
  "unsafe_chars = map of_char
     [CHR ''/'', CHR 0x5C, CHR '':'', CHR ''*'', CHR ''?'', CHR 0x22, CHR ''<'', CHR ''>'', CHR ''|'']"

definition underscore :: nat where
  "underscore = of_char CHR ''_''"

definition safe_filename :: "ustr \<Rightarrow> ustr" where
  "safe_filename name = strip (foldl (\<lambda>n ch. replace_char ch underscore n) name unsafe_chars)"

section \<open>Endpoint registry\<close>

text \<open>
  \<open>str(n)\<close> for a Python \<open>int\<close>: the decimal digits, with a minus sign when negative.
\<close>

function digits :: "nat \<Rightarrow> ustr" where
  "digits n = (if n < 10 then [48 + n] else digits (n div 10) @ [48 + n mod 10])"
  by pat_completeness auto
termination
  by (relation "measure id") auto

definition str_int :: "int \<Rightarrow> ustr" where
  "str_int i = (if i < 0 then 45 # digits (nat (- i)) else digits (nat i))"

text \<open>
  The three keys of \<open>ENDPOINTS\<close> (the report, news and institutional-announcement
  sections of the portal), and the entries stored under them.
\<close>

datatype source = Report | News | Archive

definition BASE :: ustr where
  "BASE = u ''https://www.megastudy.net''"

fun LIST :: "source \<Rightarrow> ustr" where
  "LIST Report = BASE @ u ''/Entinfo/news/news_list_ax.asp''"
| "LIST News = BASE @ u ''/Entinfo/ipsi_news/news_list_ax.asp''"
| "LIST Archive = BASE @ u ''/entinfo/g_archive/list_ax.asp''"

fun DETAIL :: "source \<Rightarrow> ustr" where
  "DETAIL Report = BASE @ u ''/Entinfo/news/news_view_ax.asp''"
| "DETAIL News = BASE @ u ''/Entinfo/ipsi_news/news_view_ax.asp''"
| "DETAIL Archive = BASE @ u ''/entinfo/g_archive/view_ax.asp''"

fun referer :: "source \<Rightarrow> ustr" where
  "referer Report = BASE @ u ''/Entinfo/news/news_list.asp''"
| "referer News = BASE @ u ''/Entinfo/ipsi_news/news_list.asp''"
| "referer Archive = BASE @ u ''/entinfo/g_archive/list.asp''"

definition viewpage :: ustr where
  "viewpage = BASE @ u ''/entinfo/g_archive/view.asp''"


fun params_detail :: "source \<Rightarrow> ustr \<Rightarrow> int \<Rightarrow> (ustr \<times> ustr) list" where
  "params_detail Archive idx page =
     [(u ''idx'', idx), (u ''page'', u ''1''), (u ''searchType'', []), (u ''searchWord'', [])]"
| "params_detail _ idx page =
     [(u ''idx'', idx), (u ''caty'', []), (u ''cat2'', []), (u ''page'', str_int page),
      (u ''searchType'', []), (u ''searchWord'', [])]"

definition build_g_archive_detail_referer :: "ustr \<Rightarrow> ustr" where
  "build_g_archive_detail_referer idx = viewpage @ u ''?idx='' @ idx"

section \<open>JSON input and the crawl configuration\<close>

text \<open>
  The values \<open>json.loads\<close> returns. A float is a finite double \<open>m * 2 ^ e\<close>, an
  infinity or a NaN; an object keeps its members in order.
\<close>

datatype pyfloat = Finite int int | Inf bool | NaN

datatype json =
    JNull
  | JBool bool
  | JInt int
  | JFloat pyfloat
  | JStr ustr
  | JArray "json list"
  | JObject "(ustr \<times> json) list"

text \<open>Python truth value of such a value, as \<open>x or y\<close> tests it.\<close>

fun truthy :: "json \<Rightarrow> bool" where
  "truthy JNull = False"
| "truthy (JBool b) = b"
| "truthy (JInt i) = (i \<noteq> 0)"
| "truthy (JFloat (Finite m e)) = (m \<noteq> 0)"
| "truthy (JFloat _) = True"
| "truthy (JStr s) = (s \<noteq> [])"
| "truthy (JArray xs) = (xs \<noteq> [])"
| "truthy (JObject kvs) = (kvs \<noteq> [])"

text \<open>
  \<^verbatim>\<open>
  def parse_json_or_empty(s: str):
      s = (s or "").strip()
      if not s:
          return {}
      try:
          return json.loads(s)
      except Exception as e:
          st.warning(f"JSON <4 Hangul letters>: {e}")
          return {}
  \<close>
  \<open>json.loads\<close> is the standard library's parser: it is the parameter \<open>loads\<close>, with
  \<open>Inl\<close> the text of the exception it raises. The result is the value returned and the
  warnings shown.
\<close>

definition json_warning :: "ustr \<Rightarrow> ustr" where
  "json_warning e = u ''JSON '' @ [54028, 49905, 32, 50724, 47448] @ u '': '' @ e"

definition parse_json_or_empty :: "(ustr \<Rightarrow> ustr + json) \<Rightarrow> ustr \<Rightarrow> json \<times> ustr list" where
  "parse_json_or_empty loads s0 =
     (let s = strip s0 in
      if s = [] then (JObject [], [])
      else (case loads s of
              Inr v \<Rightarrow> (v, [])
            | Inl e \<Rightarrow> (JObject [], [json_warning e])))"

text \<open>The sidebar: what the widgets hold when the script runs.\<close>

record widgets =
  w_source_name :: source
  w_start_page :: int
  w_end_page :: int
  w_cookies_json :: ustr
  w_headers_json :: ustr
  w_verify_ssl :: bool
  w_delay_sec :: pyfloat
  w_prefetch :: bool
  w_max_prefetch_mb :: int
  w_want_download :: bool
  w_ext_filter :: ustr

definition default_headers :: "source \<Rightarrow> json" where
  "default_headers src = JObject
     [(u ''User-Agent'', JStr (u (''Mozilla/5.0 (Windows NT 10.0; Win64; x64) AppleWebKit/537.36 '' @
          ''(KHTML, like Gecko) Chrome/139.0.0.0 Safari/537.36''))),
      (u ''Accept'', JStr (u ''text/html, */*; q=0.01'')),
      (u ''X-Requested-With'', JStr (u ''XMLHttpRequest'')),
      (u ''Referer'', JStr (referer src))]"

text \<open>\<open>S.config\<close>, as the crawl button stores it.\<close>

record config =
  source_name :: source
  start_page :: int
  end_page :: int
  cookies :: json
  headers :: json
  verify_ssl :: bool
  delay_sec :: pyfloat
  prefetch :: bool
  max_prefetch_mb :: int
  want_download :: bool
  ext_filter :: ustr

text \<open>
  The attachment options exist only for the institutional-announcement source; the
  other sources keep the defaults \<open>prefetch=False; max_prefetch_mb=50;
  want_download=False; ext_filter=""\<close>.
  \<^verbatim>\<open>
      S.config = {
          "source_name": source_name, ...
          "cookies": parse_json_or_empty(cookies_json),
          "headers": parse_json_or_empty(headers_json) or default_headers,
          ... }
  \<close>
\<close>

definition capture_config :: "(ustr \<Rightarrow> ustr + json) \<Rightarrow> widgets \<Rightarrow> config \<times> ustr list" where
  "capture_config loads w =
     (let src = w_source_name w;
          arch = (src = Archive);
          (ck, warn1) = parse_json_or_empty loads (w_cookies_json w);
          (hd0, warn2) = parse_json_or_empty loads (w_headers_json w)
      in (\<lparr> source_name = src,
            start_page = w_start_page w,
            end_page = w_end_page w,
            cookies = ck,
            headers = (if truthy hd0 then hd0 else default_headers src),
            verify_ssl = w_verify_ssl w,
            delay_sec = w_delay_sec w,
            prefetch = (if arch then w_prefetch w else False),
            max_prefetch_mb = (if arch then w_max_prefetch_mb w else 50),
            want_download = (if arch then w_want_download w else False),
            ext_filter = (if arch then w_ext_filter w else []) \<rparr>,
          warn1 @ warn2))"

section \<open>Regular expressions of the program\<close>

text \<open>
  Every pattern of the program is a sequence of one-character items (a literal or a
  character class), each taken once, optionally (\<open>?\<close>), or repeated (\<open>*\<close>, \<open>+\<close>), and
  exactly one item sits in the capture group 1. \<open>re\<close> matches such a pattern by
  backtracking: a repeated item first takes as many characters as it can and gives them
  back one at a time, an optional item is first tried present.
\<close>

datatype quant = Once | Opt | Star | Plus

record atom =
  cls :: "nat \<Rightarrow> bool"
  rep :: quant
  grp :: bool

text \<open>The numbers of characters to try for an item that could take at most \<open>n\<close>.\<close>

fun candidates :: "quant \<Rightarrow> nat \<Rightarrow> nat list" where
  "candidates Once n = (if 1 \<le> n then [1] else [])"
| "candidates Opt n = (if 1 \<le> n then [1, 0] else [0])"
| "candidates Star n = rev [0..<Suc n]"
| "candidates Plus n = rev [1..<Suc n]"

fun first_some :: "('a \<Rightarrow> 'b option) \<Rightarrow> 'a list \<Rightarrow> 'b option" where
  "first_some f [] = None"
| "first_some f (x # xs) = (case f x of Some y \<Rightarrow> Some y | None \<Rightarrow> first_some f xs)"

text \<open>
  Matching at the start of \<open>s\<close>: the text of group 1 and the rest of the input, or
  \<open>None\<close>.
\<close>

primrec match_here :: "atom list \<Rightarrow> ustr \<Rightarrow> ustr \<Rightarrow> (ustr \<times> ustr) option" where
  "match_here [] = (\<lambda>s cap. Some (cap, s))"
| "match_here (a # r) = (\<lambda>s cap.
     first_some (\<lambda>k. match_here r (drop k s) (if grp a then take k s else cap))
       (candidates (rep a) (length (takeWhile (cls a) s))))"

text \<open>\<open>m = re.search(pattern, s)\<close>, then \<open>m.group(1) if m else None\<close>.\<close>

fun re_search :: "atom list \<Rightarrow> ustr \<Rightarrow> ustr option" where
  "re_search r [] = map_option fst (match_here r [] [])"
| "re_search r (c # cs) =
     (case match_here r (c # cs) [] of
        Some (cap, rest) \<Rightarrow> Some cap
      | None \<Rightarrow> re_search r cs)"

definition lit :: "char \<Rightarrow> atom" where
  "lit c = \<lparr> cls = (\<lambda>x. x = of_char c), rep = Once, grp = False \<rparr>"

text \<open>
  A letter under \<open>re.I\<close>: both cases, and for \<open>i\<close> also U+0130 and U+0131, which
  \<open>re\<close> treats as the same letter.
\<close>

definition lit_i :: "char \<Rightarrow> char \<Rightarrow> atom" where
  "lit_i lo up = \<lparr> cls = (\<lambda>x. x = of_char lo \<or> x = of_char up \<or>
       (lo = CHR ''i'' \<and> (x = 304 \<or> x = 305))), rep = Once, grp = False \<rparr>"

definition filename_i :: "atom list" where
  "filename_i = [lit_i CHR ''f'' CHR ''F'', lit_i CHR ''i'' CHR ''I'', lit_i CHR ''l'' CHR ''L'',
     lit_i CHR ''e'' CHR ''E'', lit_i CHR ''n'' CHR ''N'', lit_i CHR ''a'' CHR ''A'',
     lit_i CHR ''m'' CHR ''M'', lit_i CHR ''e'' CHR ''E'']"

definition spaces :: atom where
  "spaces = \<lparr> cls = isspace, rep = Star, grp = False \<rparr>"

definition quote :: nat where "quote = 39"

definition dquote :: nat where "dquote = 34"

definition semicolon :: nat where "semicolon = 59"


text \<open>\<open>r"filename\*\s*=\s*[^']+'[^']*'([^;]+)"\<close> with \<open>re.I\<close>.\<close>

definition re_cd_ext :: "atom list" where
  "re_cd_ext = filename_i @
     [lit CHR ''*'', spaces, lit CHR ''='', spaces,
      \<lparr> cls = (\<lambda>x. x \<noteq> quote), rep = Plus, grp = False \<rparr>,
      \<lparr> cls = (\<lambda>x. x = quote), rep = Once, grp = False \<rparr>,
      \<lparr> cls = (\<lambda>x. x \<noteq> quote), rep = Star, grp = False \<rparr>,
      \<lparr> cls = (\<lambda>x. x = quote), rep = Once, grp = False \<rparr>,
      \<lparr> cls = (\<lambda>x. x \<noteq> semicolon), rep = Plus, grp = True \<rparr>]"

text \<open>\<open>r'filename\s*=\s*"?([^";]+)"?'\<close> with \<open>re.I\<close>.\<close>

definition re_cd_plain :: "atom list" where
  "re_cd_plain = filename_i @
     [spaces, lit CHR ''='', spaces,
      \<lparr> cls = (\<lambda>x. x = dquote), rep = Opt, grp = False \<rparr>,
      \<lparr> cls = (\<lambda>x. x \<noteq> dquote \<and> x \<noteq> semicolon), rep = Plus, grp = True \<rparr>,
      \<lparr> cls = (\<lambda>x. x = dquote), rep = Opt, grp = False \<rparr>]"


section \<open>urllib.parse.unquote\<close>

text \<open>
  The standard library's \<open>unquote(string)\<close>, with its defaults \<open>encoding='utf-8'\<close> and
  \<open>errors='replace'\<close>: in every maximal run of ASCII characters each \<open>%XX\<close> with two
  hexadecimal digits becomes the byte XX, and the bytes of the run are decoded as UTF-8,
  an ill-formed sequence giving U+FFFD; the other characters are kept.
\<close>

definition hexval :: "nat \<Rightarrow> nat option" where
  "hexval c = (if 48 \<le> c \<and> c \<le> 57 then Some (c - 48)
               else if 65 \<le> c \<and> c \<le> 70 then Some (c - 55)
               else if 97 \<le> c \<and> c \<le> 102 then Some (c - 87)
               else None)"

fun unquote_to_bytes :: "ustr \<Rightarrow> nat list" where
  "unquote_to_bytes [] = []"
| "unquote_to_bytes (c # cs) =
     (if c = 37 then
        (case cs of
           h1 # h2 # r \<Rightarrow>
             (case (hexval h1, hexval h2) of
                (Some a, Some b) \<Rightarrow> (16 * a + b) # unquote_to_bytes r
              | _ \<Rightarrow> 37 # unquote_to_bytes cs)
         | _ \<Rightarrow> 37 # unquote_to_bytes cs)
      else c # unquote_to_bytes cs)"

definition cont :: "nat \<Rightarrow> bool" where
  "cont b \<longleftrightarrow> 128 \<le> b \<and> b \<le> 191"

text \<open>The range of the second byte after the lead byte \<open>b\<close> of a 3- or 4-byte sequence.\<close>

definition second_ok :: "nat \<Rightarrow> nat \<Rightarrow> bool" where
  "second_ok b c \<longleftrightarrow>
     (if b = 224 then 160 \<le> c \<and> c \<le> 191
      else if b = 237 then 128 \<le> c \<and> c \<le> 159
      else if b = 240 then 144 \<le> c \<and> c \<le> 191
      else if b = 244 then 128 \<le> c \<and> c \<le> 143
      else cont c)"

definition replacement :: nat where
  "replacement = 65533"

fun utf8_decode :: "nat list \<Rightarrow> ustr" where
  "utf8_decode [] = []"
| "utf8_decode (b # bs) =
     (if b < 128 then b # utf8_decode bs
      else if 194 \<le> b \<and> b \<le> 223 then
        (case bs of
           c # r \<Rightarrow> if cont c then ((b - 192) * 64 + (c - 128)) # utf8_decode r
                    else replacement # utf8_decode bs
         | [] \<Rightarrow> [replacement])
      else if 224 \<le> b \<and> b \<le> 239 then
        (case bs of
           c # r \<Rightarrow>
             if second_ok b c then
               (case r of
                  d # r' \<Rightarrow> if cont d
                     then ((b - 224) * 4096 + (c - 128) * 64 + (d - 128)) # utf8_decode r'
                     else replacement # utf8_decode r
                | [] \<Rightarrow> [replacement])
             else replacement # utf8_decode bs
         | [] \<Rightarrow> [replacement])
      else if 240 \<le> b \<and> b \<le> 244 then
        (case bs of
           c # r \<Rightarrow>
             if second_ok b c then
               (case r of
                  d # r' \<Rightarrow>
                    if cont d then
                      (case r' of
                         e # r'' \<Rightarrow> if cont e
                            then ((b - 240) * 262144 + (c - 128) * 4096 + (d - 128) * 64 + (e - 128))
                                 # utf8_decode r''
                            else replacement # utf8_decode r'
                       | [] \<Rightarrow> [replacement])
                    else replacement # utf8_decode r
                | [] \<Rightarrow> [replacement])
             else replacement # utf8_decode bs
         | [] \<Rightarrow> [replacement])
      else replacement # utf8_decode bs)"

function unquote_runs :: "ustr \<Rightarrow> ustr" where
  "unquote_runs [] = []"
| "unquote_runs (c # cs) =
     (if c < 128
      then utf8_decode (unquote_to_bytes (takeWhile (\<lambda>x. x < 128) (c # cs)))
           @ unquote_runs (dropWhile (\<lambda>x. x < 128) cs)
      else c # unquote_runs cs)"
  by pat_completeness auto
termination
  by (relation "measure length") (auto simp: le_imp_less_Suc length_dropWhile_le)

definition unquote :: "ustr \<Rightarrow> ustr" where
  "unquote s = (if 37 \<notin> set s then s else unquote_runs s)"

section \<open>filename_from_cd\<close>

text \<open>
  \<^verbatim>\<open>
  def filename_from_cd(content_disposition: str | None) -> str | None:
      if not content_disposition:
          return None
      m = re.search(r"filename\*\s*=\s*[^']+'[^']*'([^;]+)", content_disposition, flags=re.I)
      if m:
          try:
              return unquote(m.group(1))
          except Exception:
              return m.group(1)
      m = re.search(r'filename\s*=\s*"?([^";]+)"?', content_disposition, flags=re.I)
      return m.group(1) if m else None
  \<close>
  \<open>unquote\<close> raises nothing on a \<open>str\<close>, so the \<open>except\<close> branch is never taken.
\<close>

definition filename_from_cd :: "ustr option \<Rightarrow> ustr option" where
  "filename_from_cd content_disposition =
     (case content_disposition of
        None \<Rightarrow> None
      | Some h \<Rightarrow>
          if h = [] then None
          else (case re_search re_cd_ext h of
                  Some g \<Rightarrow> Some (unquote g)
                | None \<Rightarrow> re_search re_cd_plain h))"

section \<open>Parsed documents\<close>

text \<open>
  \<open>BeautifulSoup(r.text, "html.parser")\<close> turns the markup into a tree of tags and
  strings; the parser is the library's, and the tree is where the model starts. A string
  has the class the parser gave it (\<open>NavigableString\<close>, or \<open>Script\<close>, \<open>Stylesheet\<close>,
  \<open>TemplateString\<close>, \<open>RubyTextString\<close>, \<open>RubyParenthesisString\<close> inside the tags of
  these names, \<open>CData\<close>, or another class such as \<open>Comment\<close>). A tag has its name, the
  values of its \<open>class\<close> attribute, its other attributes and its children. \<open>Gone\<close> is
  what is left of an element after \<open>decompose()\<close>: it has no content, and a reference
  to the element or to anything that was inside it finds nothing.
\<close>

datatype strkind =
  NavigableString | CData | Script | Stylesheet | TemplateString |
  RubyTextString | RubyParenthesisString | OtherString

datatype node =
    Str strkind ustr
  | Tag ustr "ustr list" "(ustr \<times> ustr) list" "node list"
  | Gone

text \<open>\<open>tag.descendants\<close>: everything below the tag, in document order.\<close>

fun descendants :: "node \<Rightarrow> node list" where
  "descendants (Tag n cl at ch) = concat (map (\<lambda>k. k # descendants k) ch)"
| "descendants _ = []"

fun has_class :: "ustr \<Rightarrow> node \<Rightarrow> bool" where
  "has_class c (Tag n cl at ch) = (c \<in> set cl)"
| "has_class c _ = False"



text \<open>\<open>tag.get(key)\<close>\<close>

fun get_attr :: "ustr \<Rightarrow> node \<Rightarrow> ustr option" where
  "get_attr k (Tag n cl at ch) = map_of at k"
| "get_attr k _ = None"

text \<open>
  The string classes a tag counts as its text (\<open>interesting_string_types\<close>), and the
  strings \<open>_all_strings(strip)\<close> yields for a tag: those of its descendants that are of
  such a class, each stripped and dropped when empty if \<open>strip\<close> is set.
\<close>

definition interesting :: "ustr \<Rightarrow> strkind list" where
  "interesting n =
     (if n = u ''script'' then [Script]
      else if n = u ''style'' then [Stylesheet]
      else if n = u ''template'' then [TemplateString]
      else if n = u ''rt'' then [RubyTextString]
      else if n = u ''rp'' then [RubyParenthesisString]
      else [NavigableString, CData])"

fun own_string :: "strkind list \<Rightarrow> bool \<Rightarrow> node \<Rightarrow> ustr list" where
  "own_string types strp (Str k s) =
     (if k \<in> set types
      then (if strp then (if strip s = [] then [] else [strip s]) else [s])
      else [])"
| "own_string types strp _ = []"

fun all_strings :: "bool \<Rightarrow> node \<Rightarrow> ustr list" where
  "all_strings strp (Tag n cl at ch) =
     concat (map (own_string (interesting n) strp) (descendants (Tag n cl at ch)))"
| "all_strings strp _ = []"


definition get_text :: "ustr \<Rightarrow> bool \<Rightarrow> node \<Rightarrow> ustr" where
  "get_text separator strp e = join separator (all_strings strp e)"

text \<open>
  References into a document that is being changed: a path gives the child to take at
  each level. \<open>node_at\<close> follows a path, and finds \<open>Gone\<close> where the element was
  destroyed; \<open>put_at\<close> replaces the subtree at a path and cannot revive what is gone.
\<close>

fun node_at :: "node \<Rightarrow> nat list \<Rightarrow> node" where
  "node_at t [] = t"
| "node_at (Tag n cl at ch) (i # p) = (if i < length ch then node_at (ch ! i) p else Gone)"
| "node_at _ (i # p) = Gone"

fun put_at :: "node \<Rightarrow> nat list \<Rightarrow> node \<Rightarrow> node" where
  "put_at Gone p v = Gone"
| "put_at t [] v = v"
| "put_at (Tag n cl at ch) (i # p) v =
     (if i < length ch then Tag n cl at (ch[i := put_at (ch ! i) p v]) else Tag n cl at ch)"
| "put_at (Str k s) (i # p) v = Str k s"

text \<open>The paths of the descendants that satisfy \<open>P\<close>, in document order.\<close>

fun paths_where :: "(node \<Rightarrow> bool) \<Rightarrow> node \<Rightarrow> nat list list"
  and paths_from :: "(node \<Rightarrow> bool) \<Rightarrow> nat \<Rightarrow> node list \<Rightarrow> nat list list" where
  "paths_where P (Tag n cl at ch) = paths_from P 0 ch"
| "paths_where P (Str k s) = []"
| "paths_where P Gone = []"
| "paths_from P i [] = []"
| "paths_from P i (k # ks) =
     (if P k then [[i]] else []) @ map ((#) i) (paths_where P k) @ paths_from P (Suc i) ks"

section \<open>Requests and the functions that fetch\<close>

text \<open>
  What the program cannot compute itself is a parameter, collected in \<open>env\<close>: the
  portal's answer to a GET request (\<open>Inl\<close> when \<open>sess.get\<close> raises), the headers of a
  new session, the Unicode decimal
  digits, and the library functions \<open>requote_uri\<close>, \<open>urlparse(...).path\<close>, \<open>urljoin\<close> and
  \<open>str\<close> of an exception. A response carries its status, its final URL, its
  \<open>Content-Disposition\<close> header, its parsed markup, and its body as the chunks
  \<open>iter_content\<close> yields (or the exception it raises).
\<close>

datatype exn = HTTPError nat | KeyError ustr | DuplicateWidgetID ustr | OtherError ustr

type_synonym byte = "8 word"

record request =
  rq_url :: ustr
  rq_params :: "(ustr \<times> ustr) list"
  rq_cookies :: json
  rq_headers :: "(ustr \<times> json) list"
  rq_referer :: "ustr option"
  rq_verify :: bool
  rq_timeout :: nat
  rq_stream :: bool

record response =
  status_code :: nat
  resp_url :: ustr
  content_disposition :: "ustr option"
  soup :: node
  iter_content :: "exn + byte list list"

record env =
  http_get :: "request \<Rightarrow> exn + response"
  session_headers :: "json \<Rightarrow> exn + (ustr \<times> json) list"
  isdecimal :: "nat \<Rightarrow> bool"
  requote_uri :: "ustr \<Rightarrow> ustr"
  urlparse_path :: "ustr \<Rightarrow> ustr"
  urljoin :: "ustr \<Rightarrow> ustr \<Rightarrow> ustr"
  exn_str :: "exn \<Rightarrow> ustr"


text \<open>\<open>r.raise_for_status()\<close>\<close>

definition raise_for_status :: "response \<Rightarrow> exn + response" where
  "raise_for_status r =
     (if 400 \<le> status_code r \<and> status_code r < 600 then Inl (HTTPError (status_code r)) else Inr r)"

definition get_checked :: "env \<Rightarrow> request \<Rightarrow> exn + response" where
  "get_checked E rq = (case http_get E rq of Inl e \<Rightarrow> Inl e | Inr r \<Rightarrow> raise_for_status r)"

record item =
  idx :: ustr
  title :: ustr




text \<open>
  \<^verbatim>\<open>
      parts = []
      for content in soup.select(".viewContents"):
          for bad in content(["script", "style"]):
              bad.decompose()
          raw = content.get_text(separator="\n", strip=True)
          norm = normalize_paragraphs(raw)
          if norm:
              parts.append(norm)
      return "\n\n".join(parts), soup
  \<close>
  The selected containers are references into the one document, which \<open>decompose\<close>
  changes: the loop passes the document along, and reads each container from it.
\<close>

fun is_bad :: "node \<Rightarrow> bool" where
  "is_bad (Tag n cl at ch) = (n = u ''script'' \<or> n = u ''style'')"
| "is_bad _ = False"

fun decompose_bad :: "node \<Rightarrow> node" where
  "decompose_bad (Tag n cl at ch) =
     Tag n cl at (map (\<lambda>k. if is_bad k then Gone else decompose_bad k) ch)"
| "decompose_bad t = t"

fun detail_loop :: "node \<Rightarrow> nat list list \<Rightarrow> ustr list \<Rightarrow> ustr list \<times> node" where
  "detail_loop doc [] parts = (parts, doc)"
| "detail_loop doc (p # ps) parts =
     (let content = decompose_bad (node_at doc p);
          norm = normalize_paragraphs (get_text [NL] True content)
      in detail_loop (put_at doc p content) ps (if norm \<noteq> [] then parts @ [norm] else parts))"

definition extract_detail :: "node \<Rightarrow> ustr \<times> node" where
  "extract_detail doc =
     (let (parts, doc') = detail_loop doc (paths_where (has_class (u ''viewContents'')) doc) []
      in (join [NL, NL] parts, doc'))"

definition fetch_detail_body_and_soup ::
  "env \<Rightarrow> (ustr \<times> json) list \<Rightarrow> json \<Rightarrow> source \<Rightarrow> ustr \<Rightarrow> int \<Rightarrow> bool \<Rightarrow> exn + ustr \<times> node" where
  "fetch_detail_body_and_soup E sess cks src i page_for_context verify =
     (case get_checked E \<lparr> rq_url = DETAIL src, rq_params = params_detail src i page_for_context,
              rq_cookies = cks, rq_headers = sess, rq_referer = None, rq_verify = verify,
              rq_timeout = 30, rq_stream = False \<rparr> of
        Inl e \<Rightarrow> Inl e
      | Inr r \<Rightarrow> Inr (extract_detail (soup r)))"

text \<open>
  \<^verbatim>\<open>
      for a in detail_soup.select(".commonBoardView--items .viewpage_addfile a[href]"):
          href = a.get("href")
          if href:
              urls.append(urljoin(BASE, href))
  \<close>
  \<open>inner\<close> says that an ancestor has the class \<open>viewpage_addfile\<close> and is itself below an
  element of class \<open>commonBoardView--items\<close>; \<open>outer\<close> says that an ancestor has the
  latter class.
\<close>

fun addfile_links :: "bool \<Rightarrow> bool \<Rightarrow> node \<Rightarrow> node list" where
  "addfile_links outer inner (Tag n cl at ch) =
     (if inner \<and> n = u ''a'' \<and> map_of at (u ''href'') \<noteq> None then [Tag n cl at ch] else [])
     @ concat (map (addfile_links (outer \<or> u ''commonBoardView--items'' \<in> set cl)
                      (inner \<or> (outer \<and> u ''viewpage_addfile'' \<in> set cl))) ch)"
| "addfile_links outer inner _ = []"

definition find_attachments_from_g_archive :: "env \<Rightarrow> node \<Rightarrow> ustr list" where
  "find_attachments_from_g_archive E detail_soup =
     concat (map (\<lambda>a. case get_attr (u ''href'') a of
                         None \<Rightarrow> []
                       | Some href \<Rightarrow> if href = [] then [] else [urljoin E BASE href])
                 (addfile_links False False detail_soup))"

text \<open>\<open>os.path.basename\<close>: what follows the last slash.\<close>

definition basename :: "ustr \<Rightarrow> ustr" where
  "basename p = rev (takeWhile (\<lambda>c. c \<noteq> 47) (rev p))"

text \<open>
  \<^verbatim>\<open>
  def download_binary(sess, cookies, url, verify_ssl, referer: str):
      safe_url = requote_uri(url)
      headers = dict(sess.headers); headers["Referer"] = referer
      with sess.get(safe_url, cookies=cookies, headers=headers,
                    verify=verify_ssl, timeout=120, stream=True) as resp:
          resp.raise_for_status()
          fname = filename_from_cd(resp.headers.get("Content-Disposition"))
          if not fname:
              path_name = unquote(os.path.basename(urlparse(resp.url).path))
              fname = path_name if path_name else "download.bin"
          fname = safe_filename(fname)
          bio = io.BytesIO()
          for chunk in resp.iter_content(chunk_size=262144):
              if chunk:
                  bio.write(chunk)
          bio.seek(0)
          return fname, bio
  \<close>
\<close>

definition choose_name :: "env \<Rightarrow> response \<Rightarrow> ustr" where
  "choose_name E resp =
     (case filename_from_cd (content_disposition resp) of
        Some fname \<Rightarrow>
          if fname \<noteq> [] then fname
          else (let path_name = unquote (basename (urlparse_path E (resp_url resp)))
                in if path_name \<noteq> [] then path_name else u ''download.bin'')
      | None \<Rightarrow>
          (let path_name = unquote (basename (urlparse_path E (resp_url resp)))
           in if path_name \<noteq> [] then path_name else u ''download.bin''))"

definition download_binary ::
  "env \<Rightarrow> (ustr \<times> json) list \<Rightarrow> json \<Rightarrow> ustr \<Rightarrow> bool \<Rightarrow> ustr \<Rightarrow> exn + ustr \<times> byte list" where
  "download_binary E sess cks url verify rfr =
     (case get_checked E \<lparr> rq_url = requote_uri E url, rq_params = [], rq_cookies = cks,
              rq_headers = sess, rq_referer = Some rfr, rq_verify = verify, rq_timeout = 120,
              rq_stream = True \<rparr> of
        Inl e \<Rightarrow> Inl e
      | Inr resp \<Rightarrow>
          (case iter_content resp of
             Inl e \<Rightarrow> Inl e
           | Inr chunks \<Rightarrow>
               Inr (safe_filename (choose_name E resp), concat (filter (\<lambda>c. c \<noteq> []) chunks))))"

section \<open>Session state and the crawl\<close>

text \<open>
  One entry of \<open>row["prefetched"]\<close>, one collected row (the list row with its body and,
  for the institutional-announcement source, its attachments and prefetch records), and
  \<open>st.session_state\<close>: the results, the configuration, the \<open>ran\<close> flag, and the prepared
  files under their string keys \<open>name_{idx}_{ai}\<close> and \<open>blob_{idx}_{ai}\<close>.
\<close>

record prefetch_rec =
  ok :: bool
  reason :: "ustr option"
  name :: "ustr option"

record row = item +
  body :: ustr
  attachments :: "ustr list option"
  prefetched :: "prefetch_rec list option"

datatype stored = SName ustr | SBlob "byte list"

record session_state =
  results :: "row list"
  config :: "config option"
  ran :: bool
  files :: "ustr \<rightharpoonup> stored"

definition key_blob :: "ustr \<Rightarrow> nat \<Rightarrow> ustr" where
  "key_blob i ai = u ''blob_'' @ i @ u ''_'' @ str_int (int ai)"

definition key_name :: "ustr \<Rightarrow> nat \<Rightarrow> ustr" where
  "key_name i ai = u ''name_'' @ i @ u ''_'' @ str_int (int ai)"

text \<open>
  \<^verbatim>\<open>
      for ai, au in enumerate(attaches):
          try:
              fname, data = download_binary(sess, cookies, au, verify_ssl,
                                            referer=build_g_archive_detail_referer(idx))
              if data.getbuffer().nbytes > limit_bytes:
                  row["prefetched"].append({"ok": False, "reason": "limit", "name": fname})
                  continue
              key_blob = f"blob_{idx}_{ai}"; key_name = f"name_{idx}_{ai}"
              S[key_name] = fname; S[key_blob] = data.getvalue()
              row["prefetched"].append({"ok": True, "name": fname})
          except Exception as e:
              row["prefetched"].append({"ok": False, "reason": str(e)})
  \<close>
\<close>

fun prefetch_loop ::
  "env \<Rightarrow> (ustr \<times> json) list \<Rightarrow> json \<Rightarrow> bool \<Rightarrow> ustr \<Rightarrow> int \<Rightarrow> (nat \<times> ustr) list \<Rightarrow>
   (ustr \<rightharpoonup> stored) \<Rightarrow> prefetch_rec list \<Rightarrow> (ustr \<rightharpoonup> stored) \<times> prefetch_rec list" where
  "prefetch_loop E sess cks verify i limit_bytes [] fs recs = (fs, recs)"
| "prefetch_loop E sess cks verify i limit_bytes ((ai, au) # rest) fs recs =
     (case download_binary E sess cks au verify (build_g_archive_detail_referer i) of
        Inr (fname, data) \<Rightarrow>
          if int (length data) > limit_bytes
          then prefetch_loop E sess cks verify i limit_bytes rest fs
                 (recs @ [\<lparr> ok = False, reason = Some (u ''limit''), name = Some fname \<rparr>])
          else prefetch_loop E sess cks verify i limit_bytes rest
                 (fs(key_name i ai \<mapsto> SName fname, key_blob i ai \<mapsto> SBlob data))
                 (recs @ [\<lparr> ok = True, reason = None, name = Some fname \<rparr>])
      | Inl e \<Rightarrow>
          prefetch_loop E sess cks verify i limit_bytes rest fs
            (recs @ [\<lparr> ok = False, reason = Some (exn_str E e), name = None \<rparr>]))"

definition enumerate0 :: "'a list \<Rightarrow> (nat \<times> 'a) list" where
  "enumerate0 xs = zip [0..<length xs] xs"

text \<open>
  The body of \<open>for it in items\<close> up to the rendering (lines 308 to 330 of the source):
  the detail fetch, which may raise, and for the institutional-announcement source the
  attachments and the prefetch, which cannot. It gives the row built and the prepared
  files as the prefetch leaves them.
\<close>

definition detail_row ::
  "env \<Rightarrow> config \<Rightarrow> (ustr \<times> json) list \<Rightarrow> int \<Rightarrow> item \<Rightarrow> (ustr \<rightharpoonup> stored) \<Rightarrow>
   exn + row \<times> (ustr \<rightharpoonup> stored)" where
  "detail_row E cfg sess page it fs0 =
     (case fetch_detail_body_and_soup E sess (cookies cfg) (source_name cfg) (idx it) page
             (verify_ssl cfg) of
        Inl e \<Rightarrow> Inl e
      | Inr (bd, soup_detail) \<Rightarrow>
          (let row0 = \<lparr> idx = idx it, title = title it, body = bd, attachments = None,
                        prefetched = None \<rparr>
           in if source_name cfg = Archive then
                (let attaches = find_attachments_from_g_archive E soup_detail;
                     row1 = row0 \<lparr> attachments := Some attaches \<rparr>
                 in if prefetch cfg \<and> attaches \<noteq> [] then
                      (let (fs, recs) = prefetch_loop E sess (cookies cfg) (verify_ssl cfg) (idx it)
                              (max_prefetch_mb cfg * 1024 * 1024) (enumerate0 attaches) fs0 []
                       in Inr (row1 \<lparr> prefetched := Some recs \<rparr>, fs))
                    else Inr (row1, fs0))
              else Inr (row0, fs0)))"

text \<open>
  Rendering a row. Streamlit keeps the keys of the widgets made so far in the run of the
  script and refuses a key it has seen (\<open>DuplicateWidgetID\<close>): \<open>used\<close> is that set.
  \<^verbatim>\<open>
      for ai, au in enumerate(atts):
          key_blob = f"blob_{idx}_{ai}"
          key_name = f"name_{idx}_{ai}"
          if cfg.get("prefetch") and prefetched and ai < len(prefetched) and prefetched[ai].get("ok"):
              fname = S.get(key_name, prefetched[ai]["name"])
              st.download_button(..., data=S[key_blob], ..., key=f"dl_{idx}_{ai}")
              continue
          cols = st.columns([2, 6])
          with cols[0]:
              st.button(..., key=f"prep_{idx}_{ai}", on_click=prep_file, args=(idx, ai, au))
          with cols[1]:
              if key_blob in S and key_name in S:
                  st.download_button(..., key=f"dl_ready_{idx}_{ai}")
  \<close>
\<close>

definition key_dl :: "ustr \<Rightarrow> nat \<Rightarrow> ustr" where
  "key_dl i ai = u ''dl_'' @ i @ u ''_'' @ str_int (int ai)"

definition key_prep :: "ustr \<Rightarrow> nat \<Rightarrow> ustr" where
  "key_prep i ai = u ''prep_'' @ i @ u ''_'' @ str_int (int ai)"

definition key_dl_ready :: "ustr \<Rightarrow> nat \<Rightarrow> ustr" where
  "key_dl_ready i ai = u ''dl_ready_'' @ i @ u ''_'' @ str_int (int ai)"

definition widget :: "ustr \<Rightarrow> ustr set \<Rightarrow> exn + ustr set" where
  "widget k used = (if k \<in> used then Inl (DuplicateWidgetID k) else Inr (insert k used))"

fun render_attachments ::
  "config \<Rightarrow> (ustr \<rightharpoonup> stored) \<Rightarrow> ustr \<Rightarrow> prefetch_rec list \<Rightarrow> (nat \<times> ustr) list \<Rightarrow> ustr set \<Rightarrow>
   exn + ustr set" where
  "render_attachments cfg fs i pf [] used = Inr used"
| "render_attachments cfg fs i pf ((ai, au) # rest) used =
     (if prefetch cfg \<and> pf \<noteq> [] \<and> ai < length pf \<and> ok (pf ! ai) then
        (case fs (key_blob i ai) of
           None \<Rightarrow> Inl (KeyError (key_blob i ai))
         | Some b \<Rightarrow>
             (case widget (key_dl i ai) used of
                Inl e \<Rightarrow> Inl e
              | Inr used1 \<Rightarrow> render_attachments cfg fs i pf rest used1))
      else
        (case widget (key_prep i ai) used of
           Inl e \<Rightarrow> Inl e
         | Inr used1 \<Rightarrow>
             if fs (key_blob i ai) \<noteq> None \<and> fs (key_name i ai) \<noteq> None then
               (case widget (key_dl_ready i ai) used1 of
                  Inl e \<Rightarrow> Inl e
                | Inr used2 \<Rightarrow> render_attachments cfg fs i pf rest used2)
             else render_attachments cfg fs i pf rest used1))"

text \<open>
  \<^verbatim>\<open>
  def render_one_row(row: dict, cfg: dict):
      ...
          if cfg["source_name"] == <the institutional-announcement source>:
              atts = row.get("attachments") or []
              if not atts:
                  st.write(...)
                  return
              ...
              prefetched = row.get("prefetched") if cfg.get("prefetch") else None
              for ai, au in enumerate(atts): ...
  \<close>
  The expander and the texts it shows carry no key.
\<close>

definition render_one_row ::
  "row \<Rightarrow> config \<Rightarrow> (ustr \<rightharpoonup> stored) \<Rightarrow> ustr set \<Rightarrow> exn + ustr set" where
  "render_one_row r cfg fs used =
     (if source_name cfg = Archive then
        (let atts = (case attachments r of None \<Rightarrow> [] | Some a \<Rightarrow> a) in
         if atts = [] then Inr used
         else render_attachments cfg fs (idx r)
                (if prefetch cfg then (case prefetched r of None \<Rightarrow> [] | Some p \<Rightarrow> p) else [])
                (enumerate0 atts) used)
      else Inr used)"

text \<open>
  The whole body of \<open>for it in items\<close>: the row is rendered and then appended to
  \<open>S.results\<close>. An exception of the detail fetch or of the rendering ends the run; the
  files the prefetch stored stay in the session state.
\<close>

definition crawl_item ::
  "env \<Rightarrow> config \<Rightarrow> (ustr \<times> json) list \<Rightarrow> int \<Rightarrow> item \<Rightarrow> session_state \<Rightarrow> ustr set \<Rightarrow>
   session_state \<times> ustr set \<times> exn option" where
  "crawl_item E cfg sess page it S used =
     (case detail_row E cfg sess page it (files S) of
        Inl e \<Rightarrow> (S, used, Some e)
      | Inr (r, fs) \<Rightarrow>
          (case render_one_row r cfg fs used of
             Inl e \<Rightarrow> (S \<lparr> files := fs \<rparr>, used, Some e)
           | Inr used1 \<Rightarrow> (S \<lparr> results := results S @ [r], files := fs \<rparr>, used1, None)))"

fun items_loop ::
  "env \<Rightarrow> config \<Rightarrow> (ustr \<times> json) list \<Rightarrow> int \<Rightarrow> item list \<Rightarrow> session_state \<Rightarrow> ustr set \<Rightarrow>
   session_state \<times> ustr set \<times> exn option" where
  "items_loop E cfg sess page [] S used = (S, used, None)"
| "items_loop E cfg sess page (it # its) S used =
     (case crawl_item E cfg sess page it S used of
        (S1, used1, Some e) \<Rightarrow> (S1, used1, Some e)
      | (S1, used1, None) \<Rightarrow> items_loop E cfg sess page its S1 used1)"




section \<open>Auxiliary notions for the proofs\<close>

definition sanitize_char :: "nat \<Rightarrow> nat" where
  "sanitize_char c = (if c \<in> set unsafe_chars then underscore else c)"

text \<open>The text that \<open>normalize_paragraphs\<close> builds before it collapses newlines.\<close>

definition text_of :: "ustr \<Rightarrow> ustr" where
  "text_of raw = join [NL] (map clean_spaces (split_on NL raw))"

definition nls :: "ustr \<Rightarrow> nat" where
  "nls g = length (filter (\<lambda>c. c = NL) g)"

abbreviation isNL :: "nat \<Rightarrow> bool" where
  "isNL \<equiv> (\<lambda>x. x = NL)"

text \<open>Three newlines in a row somewhere; two whitespace characters in a row somewhere.\<close>

fun has3 :: "ustr \<Rightarrow> bool" where
  "has3 [] = False"
| "has3 (a # r) = (3 \<le> length (takeWhile isNL (a # r)) \<or> has3 r)"

fun ws2 :: "ustr \<Rightarrow> bool" where
  "ws2 (c # d # r) = (isspace c \<and> isspace d \<or> ws2 (d # r))"
| "ws2 _ = False"

definition nonblank :: "ustr list \<Rightarrow> ustr list" where
  "nonblank ls = filter (\<lambda>l. l \<noteq> []) ls"

text \<open>Reading decimal digits back.\<close>

definition undigits :: "ustr \<Rightarrow> nat" where
  "undigits ds = foldl (\<lambda>acc d. 10 * acc + (d - 48)) 0 ds"

text \<open>The record that the prefetch appends for one download outcome.\<close>

definition prefetch_record :: "env \<Rightarrow> int \<Rightarrow> exn + ustr \<times> byte list \<Rightarrow> prefetch_rec" where
  "prefetch_record E limit_bytes d =
     (case d of
        Inr (fname, data) \<Rightarrow>
          if int (length data) > limit_bytes
          then \<lparr> ok = False, reason = Some (u ''limit''), name = Some fname \<rparr>
          else \<lparr> ok = True, reason = None, name = Some fname \<rparr>
      | Inl e \<Rightarrow> \<lparr> ok = False, reason = Some (exn_str E e), name = None \<rparr>)"




text \<open>Trying the candidate lengths of one repeated item in turn.\<close>

definition try_each :: "atom list \<Rightarrow> ustr \<Rightarrow> ustr \<Rightarrow> bool \<Rightarrow> nat list \<Rightarrow> (ustr \<times> ustr) option" where
  "try_each r s cap g ks = first_some (\<lambda>k. match_here r (drop k s) (if g then take k s else cap)) ks"

section \<open>Sample inputs\<close>

text \<open>A parser that rejects every text, and a sidebar with a blank cookie text and a broken header text.\<close>

definition reject_all :: "ustr \<Rightarrow> ustr + json" where
  "reject_all s = Inl (u ''Expecting value'')"

definition sample_widgets :: widgets where
  "sample_widgets = \<lparr> w_source_name = News, w_start_page = 1, w_end_page = 1,
     w_cookies_json = u '' '', w_headers_json = u ''{bad'', w_verify_ssl = False,
     w_delay_sec = Finite 0 0, w_prefetch = False, w_max_prefetch_mb = 50,
     w_want_download = False, w_ext_filter = [] \<rparr>"

text \<open>A sample portal: one detail page with three attachments; the first is empty, the
  second has one byte, the third cannot be downloaded.\<close>

definition sample_detail :: node where
  "sample_detail =
     Tag (u ''div'') [u ''commonBoardView--items''] []
       [Tag (u ''ul'') [u ''viewpage_addfile''] []
          [Tag (u ''a'') [] [(u ''href'', u ''/f/a.zip'')] [Str NavigableString (u ''a'')],
           Tag (u ''a'') [] [(u ''href'', u ''/f/b.pdf'')] [Str NavigableString (u ''b'')],
           Tag (u ''a'') [] [(u ''href'', u ''/f/c.pdf'')] [Str NavigableString (u ''c'')]]]"

text \<open>A list page of the news section: two rows, the first one listed twice.\<close>

definition sample_list :: node where
  "sample_list =
     Tag (u ''table'') [] []
       [Tag (u ''td'') [u ''td_lft''] []
          [Tag (u ''a'') [u ''linkTxt''] [(u ''onclick'', u ''fn_view(101); return false;'')]
             [Str NavigableString (u '' First  row '')]],
        Tag (u ''td'') [u ''td_lft''] []
          [Tag (u ''a'') [u ''linkTxt''] [(u ''onclick'', u ''fn_view(101)'')]
             [Str NavigableString (u ''again'')]],
        Tag (u ''td'') [u ''td_lft''] [] [Str NavigableString (u ''no link'')],
        Tag (u ''td'') [u ''td_lft''] []
          [Tag (u ''a'') [u ''linkTxt''] [(u ''onclick'', u ''fn_view(102)'')]
             [Str NavigableString (u ''Se''), Tag (u ''b'') [] [] [Str NavigableString (u ''cond'')]]]]"

definition sample_get :: "request \<Rightarrow> exn + response" where
  "sample_get rq =
     (if rq_url rq = LIST News then
        Inr \<lparr> status_code = 200, resp_url = LIST News, content_disposition = None,
              soup = sample_list, iter_content = Inr [] \<rparr>
      else if rq_url rq = u ''/f/a.zip'' then
        Inr \<lparr> status_code = 200, resp_url = u ''/f/a.zip'', content_disposition = None,
              soup = Gone, iter_content = Inr [] \<rparr>
      else if rq_url rq = u ''/f/b.pdf'' then
        Inr \<lparr> status_code = 200, resp_url = u ''/f/b.pdf'', content_disposition = None,
              soup = Gone, iter_content = Inr [[0]] \<rparr>
      else if rq_url rq = u ''/f/c.pdf'' then Inl (OtherError (u ''timeout''))
      else Inr \<lparr> status_code = 200, resp_url = rq_url rq, content_disposition = None,
                 soup = sample_detail, iter_content = Inr [] \<rparr>)"

definition sample_env :: env where
  "sample_env = \<lparr> http_get = sample_get, session_headers = (\<lambda>h. Inr []), isdecimal = (\<lambda>c. 48 \<le> c \<and> c \<le> 57),
     requote_uri = (\<lambda>x. x), urlparse_path = (\<lambda>x. x), urljoin = (\<lambda>b h. h),
     exn_str = (\<lambda>e. case e of OtherError t \<Rightarrow> t | _ \<Rightarrow> u ''error'') \<rparr>"

definition sample_config :: config where
  "sample_config = \<lparr> source_name = Archive, start_page = 1, end_page = 1, cookies = JObject [],
     headers = JObject [], verify_ssl = False, delay_sec = Finite 0 0, prefetch = True,
     max_prefetch_mb = 0, want_download = True, ext_filter = u ''zip,pdf'' \<rparr>"

definition sample_state :: session_state where
  "sample_state = \<lparr> results = [], config = Some sample_config, ran = True, files = Map.empty \<rparr>"

definition sample_item :: item where
  "sample_item = \<lparr> idx = u ''7'', title = u ''t'' \<rparr>"


section \<open>Facts about strip\<close>

lemma lstrip_idem: "lstrip (lstrip s) = lstrip s"
  by (simp add: lstrip_def dropWhile_idem)

lemma rstrip_idem: "rstrip (rstrip s) = rstrip s"
  by (simp add: rstrip_def dropWhile_idem)

lemma dropWhile_rev_dropWhile:
  "dropWhile P (rev (dropWhile P (rev (dropWhile P s)))) = rev (dropWhile P (rev (dropWhile P s)))"
proof (cases "dropWhile P s")
  case Nil
  then show ?thesis by (simp del: dropWhile_eq_Nil_conv)
next
  case (Cons a as)
  then have na: "\<not> P a"
    by (metis hd_dropWhile list.discI list.sel(1))
  have ne: "dropWhile P (rev (a # as)) \<noteq> []"
    using na by (auto simp: dropWhile_eq_Nil_conv)
  have "\<exists>bs. rev (dropWhile P (rev (a # as))) = a # bs"
  proof -
    have "rev (a # as) = rev as @ [a]" by simp
    then have "dropWhile P (rev (a # as)) = dropWhile P (rev as) @ [a]"
      using na by (simp add: dropWhile_append)
    then show ?thesis by simp
  qed
  then obtain bs where "rev (dropWhile P (rev (a # as))) = a # bs" ..
  with Cons na show ?thesis by simp
qed

lemma lstrip_strip: "lstrip (strip s) = strip s"
  by (simp add: strip_def lstrip_def rstrip_def dropWhile_rev_dropWhile)

lemma strip_idem: "strip (strip s) = strip s"
  by (simp add: strip_def lstrip_strip [unfolded strip_def] rstrip_idem)

lemma dropWhile_map_cong:
  "(\<And>x. P (f x) = P x) \<Longrightarrow> dropWhile P (map f xs) = map f (dropWhile P xs)"
  by (induction xs) auto

lemma strip_map:
  assumes "\<And>x. isspace (f x) = isspace x"
  shows "strip (map f s) = map f (strip s)"
proof -
  have d: "dropWhile isspace (map f xs) = map f (dropWhile isspace xs)" for xs
    by (rule dropWhile_map_cong) (rule assms)
  have "strip (map f s) = rev (dropWhile isspace (rev (map f (dropWhile isspace s))))"
    by (simp add: strip_def lstrip_def rstrip_def d)
  also have "\<dots> = rev (dropWhile isspace (map f (rev (dropWhile isspace s))))"
    by (simp only: rev_map)
  also have "\<dots> = map f (rev (dropWhile isspace (rev (dropWhile isspace s))))"
    by (simp only: d rev_map)
  finally show ?thesis
    by (simp add: strip_def lstrip_def rstrip_def)
qed

lemma set_strip: "set (strip s) \<subseteq> set s"
proof -
  have "set (strip s) \<subseteq> set (lstrip s)"
    unfolding strip_def rstrip_def using set_dropWhileD by fastforce
  also have "\<dots> \<subseteq> set s"
    unfolding lstrip_def using set_dropWhileD by fastforce
  finally show ?thesis .
qed

section \<open>Facts about safe_filename\<close>

lemma foldl_replace_char:
  "underscore \<notin> set cs \<Longrightarrow>
   foldl (\<lambda>n ch. replace_char ch underscore n) s cs =
   map (\<lambda>c. if c \<in> set cs then underscore else c) s"
proof (induction cs arbitrary: s)
  case Nil
  then show ?case by simp
next
  case (Cons a cs)
  then show ?case by (auto simp: replace_char_def)
qed

lemma underscore_safe: "underscore \<notin> set unsafe_chars"
  by (simp add: underscore_def unsafe_chars_def)

lemma safe_filename_map: "safe_filename s = strip (map sanitize_char s)"
  unfolding safe_filename_def sanitize_char_def
  by (simp add: foldl_replace_char [OF underscore_safe])

lemma isspace_sanitize_char: "isspace (sanitize_char c) = isspace c"
  by (auto simp: sanitize_char_def isspace_def underscore_def unsafe_chars_def)

lemma sanitize_char_idem: "sanitize_char (sanitize_char c) = sanitize_char c"
  using underscore_safe by (simp add: sanitize_char_def)

lemma sanitize_char_safe: "sanitize_char c \<notin> set unsafe_chars"
  using underscore_safe by (simp add: sanitize_char_def)

lemma safe_filename_example: "safe_filename (u ''a/b:c*d?.pdf'') = u ''a_b_c_d_.pdf''"
  by (simp add: safe_filename_map sanitize_char_def unsafe_chars_def underscore_def u_def
      strip_def lstrip_def rstrip_def isspace_def)

section \<open>Facts about normalize_paragraphs\<close>

lemma split_on_nonempty [simp]: "split_on sep s \<noteq> []"
  by (induction s) auto

lemma split_on_append_sep:
  "split_on sep (x @ sep # y) = split_on sep x @ split_on sep y"
  by (induction x) (auto simp: hd_append)

lemma join_append:
  "a \<noteq> [] \<Longrightarrow> b \<noteq> [] \<Longrightarrow> join sep (a @ b) = join sep a @ sep @ join sep b"
proof (induction sep a rule: join.induct)
  case (2 sep x)
  then show ?case by (cases b) auto
qed auto

lemma normalize_paragraphs_text: "normalize_paragraphs raw = strip (sub_nl3 (text_of raw))"
  by (simp add: normalize_paragraphs_def text_of_def clean_spaces_def [abs_def])

lemma text_of_append_NL: "text_of (x @ NL # y) = text_of x @ NL # text_of y"
  by (simp add: text_of_def split_on_append_sep join_append)

lemma split_on_no_sep: "sep \<notin> set g \<Longrightarrow> split_on sep g = [g]"
  by (induction g) auto

lemma split_on_append_no_sep:
  "sep \<notin> set g \<Longrightarrow>
   split_on sep (x @ g) = butlast (split_on sep x) @ [last (split_on sep x) @ g]"
proof (induction x)
  case Nil
  then show ?case by (simp add: split_on_no_sep)
next
  case (Cons a x)
  obtain l ls where S: "split_on sep x = l # ls"
    by (cases "split_on sep x") auto
  show ?case
  proof (cases ls)
    case Nil
    with S Cons show ?thesis by simp
  next
    case (Cons l' ls')
    with S Cons.IH [OF Cons.prems] show ?thesis by simp
  qed
qed

lemma split_on_cons:
  "c \<noteq> sep \<Longrightarrow> split_on sep (c # x) = (c # hd (split_on sep x)) # tl (split_on sep x)"
  by simp

lemma isspace_SP [simp]: "isspace SP" by (simp add: isspace_def SP_def)
lemma isspace_NL [simp]: "isspace NL" by (simp add: isspace_def NL_def)

lemma sub_ws_dropWhile: "sub_ws (dropWhile isspace s) = lstrip (sub_ws s)"
proof (induction s rule: sub_ws.induct)
  case 1
  then show ?case by (simp add: lstrip_def)
next
  case (2 c cs)
  show ?case
  proof (cases "isspace c")
    case True
    have "isspace SP" by (simp add: isspace_def SP_def)
    with True 2 show ?thesis by (simp add: lstrip_def dropWhile_idem)
  next
    case False
    then show ?thesis by (simp add: lstrip_def)
  qed
qed

lemma clean_spaces_cons_ws: "isspace w \<Longrightarrow> clean_spaces (w # l) = clean_spaces l"
proof -
  assume w: "isspace w"
  have "lstrip (sub_ws (w # l)) = lstrip (sub_ws l)"
    using w sub_ws_dropWhile [of l] sub_ws_dropWhile [of "w # l"] by simp
  then show ?thesis by (simp add: clean_spaces_def strip_def)
qed

lemma sub_ws_snoc_ws:
  "isspace w \<Longrightarrow> sub_ws (l @ [w]) = (if l \<noteq> [] \<and> isspace (last l) then sub_ws l else sub_ws l @ [SP])"
proof (induction l rule: sub_ws.induct)
  case 1
  then show ?case by simp
next
  case (2 c cs)
  show ?case
  proof (cases "isspace c")
    case True
    show ?thesis
    proof (cases "\<forall>x\<in>set cs. isspace x")
      case all: True
      then have d: "dropWhile isspace cs = []" "dropWhile isspace (cs @ [w]) = []"
        using 2 by auto
      have "isspace (last (c # cs))" using all True by simp
      then show ?thesis using True d by (simp del: dropWhile_eq_Nil_conv last.simps)
    next
      case ex: False
      then have d: "dropWhile isspace (cs @ [w]) = dropWhile isspace cs @ [w]"
        by (simp add: dropWhile_append1) (metis dropWhile_append1)
      have ne: "dropWhile isspace cs \<noteq> []" using ex by simp
      then have l: "last (dropWhile isspace cs) = last cs" "cs \<noteq> []"
        by (metis append_Nil2 last_appendR takeWhile_dropWhile_id, auto)
      show ?thesis using True 2(1)[OF True 2(3)] d ne l by simp
    qed
  next
    case False
    then show ?thesis using 2 by auto
  qed
qed

lemma rstrip_snoc_ws: "isspace w \<Longrightarrow> rstrip (s @ [w]) = rstrip s"
  by (simp add: rstrip_def)

lemma strip_snoc_SP: "strip (s @ [SP]) = strip s"
proof (cases "\<forall>x\<in>set s. isspace x")
  case True
  then have "dropWhile isspace (s @ [SP]) = []" "dropWhile isspace s = []" by auto
  then show ?thesis by (simp add: strip_def lstrip_def rstrip_def del: dropWhile_eq_Nil_conv)
next
  case False
  then have "dropWhile isspace (s @ [SP]) = dropWhile isspace s @ [SP]"
    by (metis dropWhile_append1)
  then show ?thesis by (simp add: strip_def lstrip_def rstrip_def)
qed

lemma clean_spaces_snoc_ws: "isspace w \<Longrightarrow> clean_spaces (l @ [w]) = clean_spaces l"
  by (simp add: clean_spaces_def sub_ws_snoc_ws strip_snoc_SP)

lemma clean_spaces_Nil [simp]: "clean_spaces [] = []"
  by (simp add: clean_spaces_def strip_def lstrip_def rstrip_def)

lemma text_of_Nil [simp]: "text_of [] = []"
  by (simp add: text_of_def)

lemma clean_spaces_append_ws: "\<forall>c\<in>set g. isspace c \<Longrightarrow> clean_spaces (l @ g) = clean_spaces l"
proof (induction g rule: rev_induct)
  case Nil
  then show ?case by simp
next
  case (snoc w g)
  then have "clean_spaces ((l @ g) @ [w]) = clean_spaces (l @ g)"
    by (intro clean_spaces_snoc_ws) simp
  with snoc show ?case by simp
qed

lemma map_butlast_last: "xs \<noteq> [] \<Longrightarrow> map f (butlast xs) @ [f (last xs)] = map f xs"
  by (induction xs) auto

lemma text_of_snoc_ws:
  assumes "isspace w" "w \<noteq> NL"
  shows "text_of (x @ [w]) = text_of x"
proof -
  let ?S = "split_on NL x"
  have "split_on NL (x @ [w]) = butlast ?S @ [last ?S @ [w]]"
    using assms by (simp add: split_on_append_no_sep)
  then have "map clean_spaces (split_on NL (x @ [w])) =
      map clean_spaces (butlast ?S) @ [clean_spaces (last ?S)]"
    using assms by (simp add: clean_spaces_snoc_ws)
  also have "\<dots> = map clean_spaces ?S"
    by (rule map_butlast_last) simp
  finally show ?thesis by (simp only: text_of_def)
qed

lemma text_of_cons_ws:
  assumes "isspace w" "w \<noteq> NL"
  shows "text_of (w # x) = text_of x"
proof -
  obtain l ls where S: "split_on NL x = l # ls"
    by (cases "split_on NL x") auto
  then show ?thesis using assms by (simp add: text_of_def clean_spaces_cons_ws)
qed

lemma text_of_gap_right:
  "\<forall>c\<in>set g. isspace c \<Longrightarrow> text_of (p @ g) = text_of p @ replicate (nls g) NL"
proof (induction g rule: rev_induct)
  case Nil
  then show ?case by (simp add: nls_def)
next
  case (snoc w g)
  show ?case
  proof (cases "w = NL")
    case True
    have "text_of ((p @ g) @ NL # []) = text_of (p @ g) @ NL # text_of []"
      by (rule text_of_append_NL)
    with snoc True show ?thesis
      by (simp add: nls_def replicate_append_same)
  next
    case False
    with snoc have "text_of ((p @ g) @ [w]) = text_of (p @ g)"
      by (intro text_of_snoc_ws) auto
    with snoc False show ?thesis by (simp add: nls_def)
  qed
qed

lemma text_of_gap_left:
  "\<forall>c\<in>set g. isspace c \<Longrightarrow> text_of (g @ q) = replicate (nls g) NL @ text_of q"
proof (induction g)
  case Nil
  then show ?case by (simp add: nls_def)
next
  case (Cons w g)
  show ?case
  proof (cases "w = NL")
    case True
    have "text_of ([] @ NL # (g @ q)) = text_of [] @ NL # text_of (g @ q)"
      by (rule text_of_append_NL)
    with Cons True show ?thesis by (simp add: nls_def)
  next
    case False
    with Cons show ?thesis by (simp add: nls_def text_of_cons_ws)
  qed
qed

lemma text_of_gap:
  assumes "\<forall>c\<in>set g. isspace c" "NL \<in> set g"
  shows "text_of (p @ g @ q) = text_of p @ replicate (nls g) NL @ text_of q"
proof -
  from assms(2) obtain g1 g2 where g: "g = g1 @ NL # g2"
    by (meson split_list)
  have ws: "\<forall>c\<in>set g1. isspace c" "\<forall>c\<in>set g2. isspace c"
    using assms(1) g by auto
  have "text_of (p @ g @ q) = text_of ((p @ g1) @ NL # (g2 @ q))"
    by (simp add: g)
  also have "\<dots> = text_of (p @ g1) @ NL # text_of (g2 @ q)"
    by (rule text_of_append_NL)
  also have "\<dots> = text_of p @ (replicate (nls g1) NL @ NL # replicate (nls g2) NL) @ text_of q"
    by (simp add: text_of_gap_right [OF ws(1)] text_of_gap_left [OF ws(2)])
  also have "replicate (nls g1) NL @ NL # replicate (nls g2) NL = replicate (nls g) NL"
    by (simp add: g nls_def replicate_add replicate_app_Cons_same)
  finally show ?thesis .
qed

lemma last_dropWhile: "dropWhile P xs \<noteq> [] \<Longrightarrow> last (dropWhile P xs) = last xs"
  by (metis append_Nil2 last_appendR takeWhile_dropWhile_id)

lemma sub_nl3_append:
  "a = [] \<or> last a \<noteq> NL \<Longrightarrow> sub_nl3 (a @ b) = sub_nl3 a @ sub_nl3 b"
proof (induction a rule: sub_nl3.induct)
  case 1
  then show ?case by simp
next
  case (2 c cs)
  let ?P = "\<lambda>x. x = NL"
  from 2(3) have l: "last (c # cs) \<noteq> NL" by simp
  have lin: "last (c # cs) \<in> set (c # cs)"
    by (rule last_in_set) simp
  have tw: "takeWhile ?P ((c # cs) @ b) = takeWhile ?P (c # cs)"
    using lin l by (rule takeWhile_append1 [where P = "?P"])
  show ?case
  proof (cases "3 \<le> length (takeWhile ?P (c # cs))")
    case True
    then have c: "c = NL" by (auto split: if_splits)
    with l have cne: "cs \<noteq> []" and l': "last cs \<noteq> NL" by (auto split: if_splits)
    have lin': "last cs \<in> set cs" using cne by (rule last_in_set)
    have dw: "dropWhile ?P (cs @ b) = dropWhile ?P cs @ b"
      using lin' l' by (rule dropWhile_append1 [where P = "?P"])
    have ne: "dropWhile ?P cs \<noteq> []" using lin' l' by auto
    then have "last (dropWhile ?P cs) \<noteq> NL"
      using l' by (simp add: last_dropWhile)
    then have "sub_nl3 (dropWhile ?P cs @ b) = sub_nl3 (dropWhile ?P cs) @ sub_nl3 b"
      using 2(1) [OF True] by simp
    then show ?thesis
      using True tw dw sub_nl3_Cons [of c cs] sub_nl3_Cons [of c "cs @ b"] by simp
  next
    case False
    have "cs = [] \<or> last cs \<noteq> NL" using l by (cases cs) auto
    then have "sub_nl3 (cs @ b) = sub_nl3 cs @ sub_nl3 b"
      using 2(2) [OF False] by simp
    then show ?thesis
      using False tw sub_nl3_Cons [of c cs] sub_nl3_Cons [of c "cs @ b"] by simp
  qed
qed

lemma sub_nl3_replicate:
  assumes "b = [] \<or> hd b \<noteq> NL" "2 \<le> n"
  shows "sub_nl3 (replicate n NL @ b) = NL # NL # sub_nl3 b"
proof -
  let ?P = "\<lambda>x. x = NL"
  have tw: "takeWhile ?P (replicate k NL @ b) = replicate k NL" for k
    using assms(1) by (induction k) (cases b; auto)+
  have dw: "dropWhile ?P (replicate k NL @ b) = b" for k
    using assms(1) by (induction k) (cases b; auto)+
  have two: "sub_nl3 (NL # NL # b) = NL # NL # sub_nl3 b"
    using tw [of 2] tw [of 1] sub_nl3_Cons [of NL "NL # b"] sub_nl3_Cons [of NL b]
    by (simp add: numeral_2_eq_2)
  show ?thesis
  proof (cases "n = 2")
    case True
    then show ?thesis using two by (simp add: numeral_2_eq_2)
  next
    case False
    with assms(2) obtain m where n: "n = Suc m" "2 \<le> m" by (cases n) auto
    have "sub_nl3 (NL # (replicate m NL @ b)) = NL # NL # sub_nl3 (dropWhile ?P (replicate m NL @ b))"
      using tw [of n] n sub_nl3_Cons [of NL "replicate m NL @ b"] by simp
    then show ?thesis using n dw by simp
  qed
qed

lemma sub_nl3_last: "s \<noteq> [] \<Longrightarrow> sub_nl3 s \<noteq> [] \<and> last (sub_nl3 s) = last s"
proof (induction s rule: sub_nl3.induct)
  case 1
  then show ?case by simp
next
  case (2 c cs)
  let ?P = "\<lambda>x. x = NL"
  show ?case
  proof (cases "3 \<le> length (takeWhile ?P (c # cs))")
    case True
    then have c: "c = NL" by (auto split: if_splits)
    show ?thesis
    proof (cases "dropWhile ?P cs = []")
      case d: True
      then have "\<forall>x\<in>set cs. x = NL" by simp
      then have "last (c # cs) = NL" using c by (cases cs) auto
      then show ?thesis
        using True d sub_nl3_Cons [of c cs] by (simp del: dropWhile_eq_Nil_conv)
    next
      case d: False
      then have "cs \<noteq> []" by auto
      then show ?thesis
        using True d 2(1) [OF True d] sub_nl3_Cons [of c cs] by (simp add: last_dropWhile)
    qed
  next
    case False
    then show ?thesis
      using 2(2) [OF False] sub_nl3_Cons [of c cs] by (cases cs) auto
  qed
qed

lemma sub_nl3_hd: "s \<noteq> [] \<Longrightarrow> hd (sub_nl3 s) = hd s"
  by (cases s) (auto simp: sub_nl3_Cons split: if_splits)

lemma rstrip_id: "s \<noteq> [] \<Longrightarrow> \<not> isspace (last s) \<Longrightarrow> rstrip s = s"
  by (cases s rule: rev_cases) (auto simp: rstrip_def)

lemma lstrip_id: "s \<noteq> [] \<Longrightarrow> \<not> isspace (hd s) \<Longrightarrow> lstrip s = s"
  by (cases s) (auto simp: lstrip_def)

lemma lstrip_append: "x \<noteq> [] \<Longrightarrow> \<not> isspace (last x) \<Longrightarrow> lstrip (x @ z) = lstrip x @ z"
  unfolding lstrip_def using last_in_set by (rule dropWhile_append1 [where P = isspace])

lemma rstrip_append: "y \<noteq> [] \<Longrightarrow> \<not> isspace (hd y) \<Longrightarrow> rstrip (w @ y) = w @ rstrip y"
proof -
  assume y: "y \<noteq> []" "\<not> isspace (hd y)"
  then have "last (rev y) \<in> set (rev y)" "\<not> isspace (last (rev y))"
    by (simp_all add: last_rev)
  then have "dropWhile isspace (rev y @ rev w) = dropWhile isspace (rev y) @ rev w"
    by (rule dropWhile_append1 [where P = isspace])
  then show ?thesis by (simp add: rstrip_def)
qed

lemma lstrip_last: "x \<noteq> [] \<Longrightarrow> \<not> isspace (last x) \<Longrightarrow> lstrip x \<noteq> [] \<and> last (lstrip x) = last x"
proof -
  assume x: "x \<noteq> []" "\<not> isspace (last x)"
  then have "dropWhile isspace x \<noteq> []" using last_in_set by auto
  then show ?thesis by (simp add: lstrip_def last_dropWhile del: dropWhile_eq_Nil_conv)
qed

lemma sub_ws_snoc_nonws: "\<not> isspace c \<Longrightarrow> sub_ws (l @ [c]) = sub_ws l @ [c]"
proof (induction l rule: sub_ws.induct)
  case 1
  then show ?case by simp
next
  case (2 a as)
  have d: "dropWhile isspace (as @ [c]) = dropWhile isspace as @ [c]"
    using 2(3) by (simp add: dropWhile_append)
  show ?case using 2 d by simp
qed

lemma clean_spaces_snoc_nonws:
  "\<not> isspace c \<Longrightarrow> clean_spaces (l @ [c]) = lstrip (sub_ws l) @ [c]"
proof -
  assume c: "\<not> isspace c"
  have "lstrip (sub_ws l @ [c]) = lstrip (sub_ws l) @ [c]"
    using c by (simp add: lstrip_def dropWhile_append)
  then show ?thesis using c
    by (simp add: clean_spaces_def strip_def sub_ws_snoc_nonws rstrip_id)
qed

lemma join_snoc: "join sep (xs @ [y]) = (if xs = [] then y else join sep xs @ sep @ y)"
  by (simp add: join_append)

lemma text_of_last:
  assumes "p \<noteq> []" "\<not> isspace (last p)"
  shows "text_of p \<noteq> [] \<and> last (text_of p) = last p"
proof -
  obtain p' c where p: "p = p' @ [c]" using assms(1) by (cases p rule: rev_cases) auto
  with assms(2) have c: "\<not> isspace c" by simp
  then have "c \<noteq> NL" by auto
  then have "split_on NL p = butlast (split_on NL p') @ [last (split_on NL p') @ [c]]"
    by (simp add: p split_on_append_no_sep)
  then have "text_of p = join [NL] (map clean_spaces (butlast (split_on NL p')) @
      [lstrip (sub_ws (last (split_on NL p'))) @ [c]])"
    using c by (simp add: text_of_def clean_spaces_snoc_nonws)
  then show ?thesis by (simp add: join_snoc p)
qed

lemma join_Cons: "join sep (y # ys) = (if ys = [] then y else y @ sep @ join sep ys)"
  by (cases ys) auto

lemma clean_spaces_cons_nonws:
  "\<not> isspace c \<Longrightarrow> clean_spaces (c # l) \<noteq> [] \<and> hd (clean_spaces (c # l)) = c"
proof -
  assume c: "\<not> isspace c"
  have "rstrip ([c] @ sub_ws l) = ([c] @ sub_ws l) \<or> True" by simp
  have "dropWhile isspace (rev (sub_ws l) @ [c]) = dropWhile isspace (rev (sub_ws l)) @ [c]"
    using c by (simp add: dropWhile_append)
  then show ?thesis using c
    by (simp add: clean_spaces_def strip_def lstrip_def rstrip_def)
qed

lemma text_of_hd:
  assumes "q \<noteq> []" "\<not> isspace (hd q)"
  shows "text_of q \<noteq> [] \<and> hd (text_of q) = hd q"
proof -
  obtain c q' where q: "q = c # q'" using assms(1) by (cases q) auto
  with assms(2) have c: "\<not> isspace c" by simp
  then have "c \<noteq> NL" by auto
  then have "text_of q = join [NL] (clean_spaces (c # hd (split_on NL q')) #
       map clean_spaces (tl (split_on NL q')))"
    by (simp add: q text_of_def)
  then show ?thesis
    using clean_spaces_cons_nonws [OF c, of "hd (split_on NL q')"]
    by (simp add: join_Cons q)
qed

lemma normalize_paragraphs_gap:
  assumes p: "p \<noteq> []" "\<not> isspace (last p)"
      and q: "q \<noteq> []" "\<not> isspace (hd q)"
      and g: "\<forall>c\<in>set g. isspace c" "2 \<le> nls g"
  shows "normalize_paragraphs (p @ g @ q) =
         normalize_paragraphs p @ [NL, NL] @ normalize_paragraphs q"
proof -
  let ?X = "sub_nl3 (text_of p)" and ?Y = "sub_nl3 (text_of q)"
  have tp: "text_of p \<noteq> []" "\<not> isspace (last (text_of p))"
    using text_of_last [OF p] p(2) by simp_all
  have tq: "text_of q \<noteq> []" "\<not> isspace (hd (text_of q))"
    using text_of_hd [OF q] q(2) by simp_all
  have X: "?X \<noteq> []" "\<not> isspace (last ?X)"
    using sub_nl3_last [OF tp(1)] tp(2) by simp_all
  have Y: "?Y \<noteq> []" "\<not> isspace (hd ?Y)"
    using sub_nl3_last [OF tq(1)] sub_nl3_hd [OF tq(1)] tq(2) by simp_all
  have "NL \<in> set g"
  proof (rule ccontr)
    assume "NL \<notin> set g"
    then have "filter (\<lambda>c. c = NL) g = []" by (auto simp: filter_empty_conv)
    with g(2) show False by (simp add: nls_def)
  qed
  then have "text_of (p @ g @ q) = text_of p @ replicate (nls g) NL @ text_of q"
    using g(1) by (intro text_of_gap) auto
  moreover have "last (text_of p) \<noteq> NL" "hd (text_of q) \<noteq> NL"
    using tp(2) tq(2) by auto
  ultimately have "sub_nl3 (text_of (p @ g @ q)) = ?X @ [NL, NL] @ ?Y"
    using g(2) by (simp add: sub_nl3_append sub_nl3_replicate)
  then have "normalize_paragraphs (p @ g @ q) = rstrip (lstrip (?X @ ([NL, NL] @ ?Y)))"
    by (simp add: normalize_paragraphs_text strip_def)
  also have "\<dots> = rstrip ((lstrip ?X @ [NL, NL]) @ ?Y)"
    using lstrip_append [OF X] by simp
  also have "\<dots> = (lstrip ?X @ [NL, NL]) @ rstrip ?Y"
    by (rule rstrip_append [OF Y])
  also have "\<dots> = lstrip ?X @ [NL, NL] @ rstrip ?Y"
    by simp
  also have "lstrip ?X = normalize_paragraphs p"
    using lstrip_last [OF X] X(2) by (simp add: normalize_paragraphs_text strip_def rstrip_id)
  also have "rstrip ?Y = normalize_paragraphs q"
    using Y by (simp add: normalize_paragraphs_text strip_def lstrip_id)
  finally show ?thesis .
qed

lemma takeWhile_dropWhile_Nil: "takeWhile P (dropWhile P xs) = []"
  by (induction xs) auto

lemma takeWhile_sub_nl3:
  "length (takeWhile isNL (sub_nl3 s)) = min 2 (length (takeWhile isNL s))"
proof (induction s rule: sub_nl3.induct)
  case 1
  then show ?case by simp
next
  case (2 c cs)
  show ?case
  proof (cases "3 \<le> length (takeWhile isNL (c # cs))")
    case True
    let ?d = "dropWhile isNL cs"
    have "takeWhile isNL (sub_nl3 ?d) = []"
    proof (cases "?d = []")
      case True
      then show ?thesis by (simp del: dropWhile_eq_Nil_conv)
    next
      case False
      then have "hd ?d \<noteq> NL" using hd_dropWhile [of isNL cs] by simp
      moreover have "sub_nl3 ?d \<noteq> []" "hd (sub_nl3 ?d) = hd ?d"
        using sub_nl3_last [OF False] sub_nl3_hd [OF False] by simp_all
      ultimately show ?thesis by (cases "sub_nl3 ?d") auto
    qed
    then show ?thesis using True sub_nl3_Cons [of c cs] by simp
  next
    case False
    then show ?thesis using 2(2) [OF False] sub_nl3_Cons [of c cs] by (auto split: if_splits)
  qed
qed

lemma not_has3_sub_nl3: "\<not> has3 (sub_nl3 s)"
proof (induction s rule: sub_nl3.induct)
  case 1
  then show ?case by simp
next
  case (2 c cs)
  show ?case
  proof (cases "3 \<le> length (takeWhile isNL (c # cs))")
    case True
    let ?d = "dropWhile isNL cs"
    have "length (takeWhile isNL (sub_nl3 ?d)) = 0"
      by (simp add: takeWhile_sub_nl3 takeWhile_dropWhile_Nil del: dropWhile_eq_Nil_conv)
    then have "\<not> has3 (NL # NL # sub_nl3 ?d)"
      using 2(1) [OF True] by simp
    then show ?thesis using True sub_nl3_Cons [of c cs] by simp
  next
    case False
    have "length (takeWhile isNL (c # sub_nl3 cs)) < 3"
      using False takeWhile_sub_nl3 [of cs] by (auto split: if_splits)
    then show ?thesis using False 2(2) [OF False] sub_nl3_Cons [of c cs] by simp
  qed
qed

lemma has3_append: "has3 (a @ NL # NL # NL # b)"
  by (induction a) auto

lemma strip_decomp: "\<exists>w1 w2. s = w1 @ strip s @ w2"
proof -
  let ?l = "dropWhile isspace s"
  have "s = takeWhile isspace s @ ?l" by simp
  moreover have "?l = rev (dropWhile isspace (rev ?l)) @ rev (takeWhile isspace (rev ?l))"
    by (metis rev_append rev_rev_ident takeWhile_dropWhile_id)
  ultimately have "s = takeWhile isspace s @ strip s @ rev (takeWhile isspace (rev ?l))"
    by (simp add: strip_def lstrip_def rstrip_def)
  then show ?thesis by blast
qed

lemma normalize_paragraphs_no_nl3:
  "\<not> (\<exists>a b. normalize_paragraphs raw = a @ [NL, NL, NL] @ b)"
proof
  assume "\<exists>a b. normalize_paragraphs raw = a @ [NL, NL, NL] @ b"
  then obtain a b where ab: "strip (sub_nl3 (text_of raw)) = a @ [NL, NL, NL] @ b"
    by (auto simp: normalize_paragraphs_text)
  obtain w1 w2 where "sub_nl3 (text_of raw) = w1 @ strip (sub_nl3 (text_of raw)) @ w2"
    using strip_decomp by blast
  then have "sub_nl3 (text_of raw) = (w1 @ a) @ NL # NL # NL # (b @ w2)"
    using ab by simp
  then have "has3 (sub_nl3 (text_of raw))"
    using has3_append [of "w1 @ a" "b @ w2"] by simp
  then show False using not_has3_sub_nl3 by blast
qed

lemma split_on_hd_tl: "split_on sep s = hd (split_on sep s) # tl (split_on sep s)"
  by simp

lemma nonblank_split:
  "nonblank (split_on sep s) = nonblank [hd (split_on sep s)] @ nonblank (tl (split_on sep s))"
proof -
  have "nonblank (split_on sep s) = nonblank ([hd (split_on sep s)] @ tl (split_on sep s))"
    by simp
  then show ?thesis unfolding nonblank_def filter_append .
qed

lemma nonblank_split_dropWhile:
  "nonblank (split_on NL (dropWhile isNL cs)) = nonblank (split_on NL cs)"
  by (induction cs) (auto simp: nonblank_def)

lemma split_sub_nl3:
  "hd (split_on NL (sub_nl3 s)) = hd (split_on NL s) \<and>
   nonblank (tl (split_on NL (sub_nl3 s))) = nonblank (tl (split_on NL s))"
proof (induction s rule: sub_nl3.induct)
  case 1
  then show ?case by simp
next
  case (2 c cs)
  show ?case
  proof (cases "3 \<le> length (takeWhile isNL (c # cs))")
    case True
    then have c: "c = NL" by (auto split: if_splits)
    let ?d = "dropWhile isNL cs"
    have "nonblank (split_on NL (sub_nl3 ?d)) = nonblank (split_on NL ?d)"
      using 2(1) [OF True] nonblank_split [of NL "sub_nl3 ?d"] nonblank_split [of NL ?d]
      by simp
    then have "nonblank (split_on NL (sub_nl3 ?d)) = nonblank (split_on NL cs)"
      by (simp add: nonblank_split_dropWhile)
    then show ?thesis using True c sub_nl3_Cons [of c cs] by (simp add: nonblank_def)
  next
    case False
    have "nonblank (split_on NL (sub_nl3 cs)) = nonblank (split_on NL cs)"
      using 2(2) [OF False] nonblank_split [of NL "sub_nl3 cs"] nonblank_split [of NL cs]
      by simp
    then show ?thesis using False 2(2) [OF False] sub_nl3_Cons [of c cs] by simp
  qed
qed

lemma nonblank_split_sub_nl3:
  "nonblank (split_on NL (sub_nl3 s)) = nonblank (split_on NL s)"
  using split_sub_nl3 [of s] nonblank_split [of NL "sub_nl3 s"] nonblank_split [of NL s]
  by simp

lemma split_on_replicate_append:
  "split_on NL (replicate i NL @ c) = replicate i [] @ split_on NL c"
  by (induction i) auto

lemma split_on_append_replicate:
  "split_on NL (c @ replicate j NL) = split_on NL c @ replicate j []"
proof (induction j)
  case 0
  then show ?case by simp
next
  case (Suc j)
  have "c @ replicate (Suc j) NL = (c @ replicate j NL) @ NL # []"
    by (simp add: replicate_append_same)
  then have "split_on NL (c @ replicate (Suc j) NL) = split_on NL (c @ replicate j NL) @ [[]]"
    using split_on_append_sep [of NL "c @ replicate j NL" "[]"] by simp
  with Suc show ?case by (simp add: replicate_append_same)
qed

lemma nonblank_split_padded:
  "nonblank (split_on NL (replicate i NL @ c @ replicate j NL)) = nonblank (split_on NL c)"
  by (simp add: split_on_replicate_append split_on_append_replicate nonblank_def)

lemma sub_nl3_replicate_min:
  assumes "b = [] \<or> hd b \<noteq> NL"
  shows "sub_nl3 (replicate n NL @ b) = replicate (min n 2) NL @ sub_nl3 b"
proof -
  consider "n = 0" | "n = 1" | "2 \<le> n" by linarith
  then show ?thesis
  proof cases
    case 1
    then show ?thesis by simp
  next
    case 2
    have "takeWhile isNL b = []" using assms by (cases b) auto
    then show ?thesis using 2 sub_nl3_Cons [of NL b] by simp
  next
    case 3
    then show ?thesis using sub_nl3_replicate [OF assms 3] by (simp add: numeral_2_eq_2)
  qed
qed

lemma split_on_line_no_sep: "l \<in> set (split_on sep x) \<Longrightarrow> sep \<notin> set l"
proof (induction x arbitrary: l)
  case Nil
  then show ?case by simp
next
  case (Cons a x)
  have h: "hd (split_on sep x) \<in> set (split_on sep x)" by simp
  have t: "set (tl (split_on sep x)) \<subseteq> set (split_on sep x)"
    by (metis list.set_sel(2) split_on_nonempty subsetI)
  from Cons.prems show ?case
    using Cons.IH h t by (auto split: if_splits)
qed

lemma split_join:
  "ls \<noteq> [] \<Longrightarrow> \<forall>l\<in>set ls. sep \<notin> set l \<Longrightarrow> split_on sep (join [sep] ls) = ls"
proof (induction "[sep]" ls rule: join.induct)
  case 1
  then show ?case by simp
next
  case (2 x)
  then show ?case by (simp add: split_on_no_sep)
next
  case (3 x y ys)
  then show ?case by (simp add: split_on_append_sep split_on_no_sep)
qed

lemma set_sub_ws: "set (sub_ws l) \<subseteq> insert SP (set l)"
proof (induction l rule: sub_ws.induct)
  case 1
  then show ?case by simp
next
  case (2 c cs)
  have "set (dropWhile isspace cs) \<subseteq> set cs" by (auto dest: set_dropWhileD)
  with 2 show ?case by auto
qed

lemma NL_neq_SP: "NL \<noteq> SP" by (simp add: NL_def SP_def)

lemma clean_spaces_no_NL: "NL \<notin> set l \<Longrightarrow> NL \<notin> set (clean_spaces l)"
  using set_strip [of "sub_ws l"] set_sub_ws [of l] NL_neq_SP
  by (auto simp: clean_spaces_def)

lemma split_text_of: "split_on NL (text_of x) = map clean_spaces (split_on NL x)"
  unfolding text_of_def
  by (rule split_join) (auto dest: split_on_line_no_sep clean_spaces_no_NL)

lemma dropWhile_fixed: "dropWhile P x = x \<Longrightarrow> x = [] \<or> \<not> P (hd x)"
proof (cases x)
  case Nil
  then show ?thesis by simp
next
  case (Cons a as)
  assume fx: "dropWhile P x = x"
  show ?thesis
  proof (rule ccontr)
    assume "\<not> (x = [] \<or> \<not> P (hd x))"
    then have "P a" using Cons by simp
    then have "dropWhile P as = a # as" using fx Cons by simp
    then have "length (a # as) \<le> length as"
      using length_dropWhile_le [of P as] by simp
    then show False by simp
  qed
qed

lemma strip_ends: "strip s = [] \<or> (\<not> isspace (hd (strip s)) \<and> \<not> isspace (last (strip s)))"
proof (cases "strip s = []")
  case True
  then show ?thesis by simp
next
  case False
  have "dropWhile isspace (strip s) = strip s"
    using lstrip_strip [of s] by (simp add: lstrip_def)
  then have h: "\<not> isspace (hd (strip s))" using False dropWhile_fixed by blast
  have "rstrip (strip s) = strip s"
    by (simp add: strip_def rstrip_idem)
  then have "dropWhile isspace (rev (strip s)) = rev (strip s)"
    by (simp add: rstrip_def) (metis rev_rev_ident)
  then have "\<not> isspace (hd (rev (strip s)))" using False dropWhile_fixed by fastforce
  then have "\<not> isspace (last (strip s))" using False by (simp add: hd_rev)
  with h show ?thesis by simp
qed

lemma raw_decomp:
  "\<exists>g1 g2. raw = g1 @ strip raw @ g2 \<and> (\<forall>c\<in>set g1. isspace c) \<and> (\<forall>c\<in>set g2. isspace c)"
proof -
  let ?l = "dropWhile isspace raw"
  have "raw = takeWhile isspace raw @ ?l" by simp
  moreover have "?l = rev (dropWhile isspace (rev ?l)) @ rev (takeWhile isspace (rev ?l))"
    by (metis rev_append rev_rev_ident takeWhile_dropWhile_id)
  ultimately have "raw = takeWhile isspace raw @ strip raw @ rev (takeWhile isspace (rev ?l))"
    by (simp add: strip_def lstrip_def rstrip_def)
  moreover have "\<forall>c\<in>set (takeWhile isspace raw). isspace c"
    by (auto dest: set_takeWhileD)
  moreover have "\<forall>c\<in>set (rev (takeWhile isspace (rev ?l))). isspace c"
    by (auto dest: set_takeWhileD)
  ultimately show ?thesis by blast
qed

lemma strip_padded:
  assumes "c = [] \<or> (\<not> isspace (hd c) \<and> \<not> isspace (last c))"
  shows "strip (replicate i NL @ c @ replicate j NL) = c"
proof (cases "c = []")
  case True
  have "\<forall>x\<in>set (replicate i NL @ replicate j NL). isspace x" by auto
  then have "dropWhile isspace (replicate i NL @ replicate j NL) = []"
    by (simp only: dropWhile_eq_Nil_conv)
  then show ?thesis using True
    by (simp add: strip_def lstrip_def rstrip_def del: dropWhile_eq_Nil_conv)
next
  case False
  with assms have c: "\<not> isspace (hd c)" "\<not> isspace (last c)" by simp_all
  have "dropWhile isspace (replicate i NL @ (c @ replicate j NL)) =
        dropWhile isspace (c @ replicate j NL)"
    by (rule dropWhile_append2) auto
  also have "\<dots> = c @ replicate j NL"
    using False c by (cases c) auto
  finally have l: "lstrip (replicate i NL @ c @ replicate j NL) = c @ replicate j NL"
    by (simp add: lstrip_def)
  have "dropWhile isspace (rev (replicate j NL) @ rev c) = dropWhile isspace (rev c)"
    by (rule dropWhile_append2) auto
  also have "\<dots> = rev c"
    using False c by (cases c rule: rev_cases) auto
  finally have "rstrip (c @ replicate j NL) = c"
    by (simp add: rstrip_def)
  with l show ?thesis by (simp add: strip_def)
qed

lemma normalize_paragraphs_strip_first:
  "normalize_paragraphs raw = sub_nl3 (text_of (strip raw))"
proof -
  obtain g1 g2 where d: "raw = g1 @ strip raw @ g2"
      and g: "\<forall>c\<in>set g1. isspace c" "\<forall>c\<in>set g2. isspace c"
    using raw_decomp by blast
  let ?p = "strip raw"
  let ?c = "sub_nl3 (text_of ?p)"
  have t: "text_of raw = replicate (nls g1) NL @ text_of ?p @ replicate (nls g2) NL"
  proof -
    have "text_of raw = text_of (g1 @ (?p @ g2))" using d by simp
    then show ?thesis
      by (simp only: text_of_gap_left [OF g(1)] text_of_gap_right [OF g(2)])
  qed
  show ?thesis
  proof (cases "?p = []")
    case True
    then have "text_of raw = replicate (nls g1 + nls g2) NL @ []"
      using t by (simp add: replicate_add)
    then have "sub_nl3 (text_of raw) = replicate (min (nls g1 + nls g2) 2) NL @ [] @ replicate 0 NL"
      using sub_nl3_replicate_min [of "[]" "nls g1 + nls g2"] by simp
    moreover have "strip (replicate (min (nls g1 + nls g2) 2) NL @ [] @ replicate 0 NL) = []"
      by (rule strip_padded) simp
    ultimately have "strip (sub_nl3 (text_of raw)) = []"
      by simp
    then show ?thesis using True by (simp add: normalize_paragraphs_text)
  next
    case False
    then have e: "\<not> isspace (hd ?p)" "\<not> isspace (last ?p)"
      using strip_ends [of raw] by simp_all
    have tp: "text_of ?p \<noteq> []" "\<not> isspace (last (text_of ?p))" "\<not> isspace (hd (text_of ?p))"
      using text_of_last [OF False e(2)] text_of_hd [OF False e(1)] e by simp_all
    have c: "?c \<noteq> []" "\<not> isspace (last ?c)" "\<not> isspace (hd ?c)"
      using sub_nl3_last [OF tp(1)] sub_nl3_hd [OF tp(1)] tp by simp_all
    have nl: "last (text_of ?p) \<noteq> NL" "hd (text_of ?p) \<noteq> NL"
      using tp by auto
    have "sub_nl3 (text_of raw) =
        sub_nl3 (replicate (nls g1) NL @ text_of ?p) @ sub_nl3 (replicate (nls g2) NL @ [])"
      unfolding t using tp(1) nl(1)
      by (simp add: sub_nl3_append [of "replicate (nls g1) NL @ text_of ?p", simplified])
    also have "\<dots> = replicate (min (nls g1) 2) NL @ ?c @ replicate (min (nls g2) 2) NL"
      using sub_nl3_replicate_min [of "text_of ?p" "nls g1"]
        sub_nl3_replicate_min [of "[]" "nls g2"] nl(2) by simp
    finally have "sub_nl3 (text_of raw) =
        replicate (min (nls g1) 2) NL @ ?c @ replicate (min (nls g2) 2) NL" .
    moreover have "strip (replicate (min (nls g1) 2) NL @ ?c @ replicate (min (nls g2) 2) NL) = ?c"
      by (rule strip_padded) (use c in simp)
    ultimately have "strip (sub_nl3 (text_of raw)) = ?c"
      by simp
    then show ?thesis by (simp add: normalize_paragraphs_text)
  qed
qed

lemma text_of_strip:
  "\<exists>i j. text_of raw = replicate i NL @ text_of (strip raw) @ replicate j NL"
proof -
  obtain g1 g2 where d: "raw = g1 @ strip raw @ g2"
      and g: "\<forall>c\<in>set g1. isspace c" "\<forall>c\<in>set g2. isspace c"
    using raw_decomp by blast
  have "text_of raw = text_of (g1 @ (strip raw @ g2))" using d by simp
  then have "text_of raw = replicate (nls g1) NL @ text_of (strip raw) @ replicate (nls g2) NL"
    by (simp only: text_of_gap_left [OF g(1)] text_of_gap_right [OF g(2)])
  then show ?thesis by blast
qed

lemma normalize_paragraphs_lines:
  "nonblank (split_on NL (normalize_paragraphs raw)) =
   nonblank (map clean_spaces (split_on NL raw))"
proof -
  obtain i j where t: "text_of raw = replicate i NL @ text_of (strip raw) @ replicate j NL"
    using text_of_strip by blast
  have "nonblank (split_on NL (normalize_paragraphs raw)) =
        nonblank (split_on NL (text_of (strip raw)))"
    by (simp add: normalize_paragraphs_strip_first nonblank_split_sub_nl3)
  also have "\<dots> = nonblank (split_on NL (text_of raw))"
    by (simp only: t nonblank_split_padded)
  finally show ?thesis by (simp add: split_text_of)
qed

lemma ws2_Cons: "ws2 r \<Longrightarrow> ws2 (c # r)"
  by (cases r) auto

lemma ws2_append: "ws2 (a @ c # d # b)" if "isspace c" "isspace d"
  using that by (induction a) (auto intro: ws2_Cons)

lemma ws2_Cons_nonws: "\<not> isspace c \<Longrightarrow> ws2 (c # r) = ws2 r"
  by (cases r) auto

lemma not_ws2_sub_ws: "\<not> ws2 (sub_ws l)"
proof (induction l rule: sub_ws.induct)
  case 1
  then show ?case by simp
next
  case (2 c cs)
  show ?case
  proof (cases "isspace c")
    case True
    let ?d = "dropWhile isspace cs"
    show ?thesis
    proof (cases ?d)
      case Nil
      then show ?thesis using True by (simp del: dropWhile_eq_Nil_conv)
    next
      case (Cons e es)
      then have e: "\<not> isspace e" using hd_dropWhile [of isspace cs] by simp
      have "\<not> ws2 (sub_ws ?d)" using 2(1) [OF True] .
      then show ?thesis using True Cons e by simp
    qed
  next
    case False
    then show ?thesis using 2(2) by (simp add: ws2_Cons_nonws)
  qed
qed

lemma sub_ws_space: "c \<in> set (sub_ws l) \<Longrightarrow> isspace c \<Longrightarrow> c = SP"
proof (induction l rule: sub_ws.induct)
  case 1
  then show ?case by simp
next
  case (2 a as)
  then show ?case by (auto split: if_splits)
qed

lemma clean_spaces_normal:
  "strip (clean_spaces l) = clean_spaces l \<and>
   (\<forall>c\<in>set (clean_spaces l). isspace c \<longrightarrow> c = SP) \<and>
   \<not> (\<exists>a c d b. clean_spaces l = a @ [c, d] @ b \<and> isspace c \<and> isspace d)"
proof (intro conjI)
  show "strip (clean_spaces l) = clean_spaces l"
    by (simp add: clean_spaces_def strip_idem)
  show "\<forall>c\<in>set (clean_spaces l). isspace c \<longrightarrow> c = SP"
    using set_strip [of "sub_ws l"] sub_ws_space by (auto simp: clean_spaces_def)
  show "\<not> (\<exists>a c d b. clean_spaces l = a @ [c, d] @ b \<and> isspace c \<and> isspace d)"
  proof
    assume "\<exists>a c d b. clean_spaces l = a @ [c, d] @ b \<and> isspace c \<and> isspace d"
    then obtain a c d b where e: "strip (sub_ws l) = a @ [c, d] @ b" "isspace c" "isspace d"
      by (auto simp: clean_spaces_def)
    obtain w1 w2 where "sub_ws l = w1 @ strip (sub_ws l) @ w2"
      using strip_decomp by blast
    then have "sub_ws l = (w1 @ a) @ c # d # (b @ w2)" using e(1) by simp
    then have "ws2 (sub_ws l)" using ws2_append [OF e(2,3), of "w1 @ a" "b @ w2"] by simp
    then show False using not_ws2_sub_ws by blast
  qed
qed

section \<open>Facts about the prefetch loop\<close>

lemmas digits_simps = digits.simps
declare digits.simps [simp del]

lemma undigits_digits: "undigits (digits n) = n"
proof (induction n rule: digits.induct)
  case (1 n)
  show ?case
  proof (cases "n < 10")
    case True
    then show ?thesis by (simp add: digits_simps [of n] undigits_def)
  next
    case False
    then have "undigits (digits n) = 10 * undigits (digits (n div 10)) + n mod 10"
      by (simp add: digits_simps [of n] undigits_def)
    with 1 False show ?thesis by simp
  qed
qed

lemma digits_inj: "digits a = digits b \<Longrightarrow> a = b"
  by (metis undigits_digits)

lemma str_int_nat_inj: "str_int (int a) = str_int (int b) \<Longrightarrow> a = b"
  by (simp add: str_int_def digits_inj)

lemma key_name_inj: "key_name i a = key_name i b \<Longrightarrow> a = b"
  by (simp add: key_name_def str_int_nat_inj)

lemma key_blob_inj: "key_blob i a = key_blob i b \<Longrightarrow> a = b"
  by (simp add: key_blob_def str_int_nat_inj)

lemma key_name_blob: "key_name i a \<noteq> key_blob j b"
  by (simp add: key_name_def key_blob_def u_def)

lemma prefetch_loop_recs:
  "prefetch_loop E sess cks verify i limit es fs recs = (fs', recs') \<Longrightarrow>
   recs' = recs @ map (\<lambda>(ai, au). prefetch_record E limit
       (download_binary E sess cks au verify (build_g_archive_detail_referer i))) es"
proof (induction es arbitrary: fs recs)
  case Nil
  then show ?case by simp
next
  case (Cons a es)
  obtain ai au where a: "a = (ai, au)" by (cases a)
  show ?case
    using Cons.prems unfolding a
    by (auto simp: prefetch_record_def split: sum.splits prod.splits if_splits
        dest!: Cons.IH)
qed

lemma prefetch_loop_untouched:
  "prefetch_loop E sess cks verify i limit es fs recs = (fs', recs') \<Longrightarrow>
   ai \<notin> fst ` set es \<Longrightarrow>
   fs' (key_name i ai) = fs (key_name i ai) \<and> fs' (key_blob i ai) = fs (key_blob i ai)"
proof (induction es arbitrary: fs recs)
  case Nil
  then show ?case by simp
next
  case (Cons a es)
  obtain aj au where a: "a = (aj, au)" by (cases a)
  with Cons.prems(2) have ne: "aj \<noteq> ai" "ai \<notin> fst ` set es" by auto
  have k: "key_name i aj \<noteq> key_name i ai" "key_blob i aj \<noteq> key_blob i ai"
    "key_name i aj \<noteq> key_blob i ai" "key_blob i aj \<noteq> key_name i ai"
    using ne(1) key_name_inj key_blob_inj key_name_blob by (blast, blast, blast, metis)
  show ?case
    using Cons.prems(1) ne(2) k unfolding a
    by (auto split: sum.splits prod.splits if_splits dest!: Cons.IH)
qed

lemma prefetch_loop_append:
  "prefetch_loop E sess cks verify i limit (es1 @ es2) fs recs =
   (case prefetch_loop E sess cks verify i limit es1 fs recs of
      (fs1, recs1) \<Rightarrow> prefetch_loop E sess cks verify i limit es2 fs1 recs1)"
proof (induction es1 arbitrary: fs recs)
  case Nil
  then show ?case by simp
next
  case (Cons a es1)
  obtain aj au where a: "a = (aj, au)" by (cases a)
  show ?case
  proof (cases "download_binary E sess cks au verify (build_g_archive_detail_referer i)")
    case (Inl e)
    then show ?thesis unfolding a by (simp add: Cons.IH)
  next
    case (Inr fd)
    obtain fname data where fd: "fd = (fname, data)" by (cases fd)
    show ?thesis unfolding a using Inr fd by (simp add: Cons.IH del: fun_upd_apply)
  qed
qed

lemma enumerate0_split:
  assumes "ai < length xs"
  shows "enumerate0 xs = zip [0..<ai] (take ai xs) @ (ai, xs ! ai) # zip [Suc ai..<length xs] (drop (Suc ai) xs)"
proof -
  have u: "[0..<length xs] = [0..<ai] @ ai # [Suc ai..<length xs]"
    using assms by (metis le_add2 le_add_same_cancel2 upt_add_eq_append upt_conv_Cons less_imp_le_nat le_Suc_ex)
  have x: "xs = take ai xs @ xs ! ai # drop (Suc ai) xs"
    using assms by (simp add: id_take_nth_drop)
  have "zip ([0..<ai] @ ai # [Suc ai..<length xs]) (take ai xs @ xs ! ai # drop (Suc ai) xs) =
        zip [0..<ai] (take ai xs) @ zip (ai # [Suc ai..<length xs]) (xs ! ai # drop (Suc ai) xs)"
    using assms by (intro zip_append) simp
  then show ?thesis unfolding enumerate0_def using u x by simp
qed

lemma prefetch_loop_enumerate:
  assumes loop: "prefetch_loop E sess cks verify i limit (enumerate0 atts) fs [] = (fs', recs)"
  shows "recs = map (\<lambda>au. prefetch_record E limit
            (download_binary E sess cks au verify (build_g_archive_detail_referer i))) atts"
proof -
  have "recs = map (\<lambda>(ai, au). prefetch_record E limit
       (download_binary E sess cks au verify (build_g_archive_detail_referer i))) (enumerate0 atts)"
    using prefetch_loop_recs [OF loop] by simp
  also have "\<dots> = map (\<lambda>au. prefetch_record E limit
       (download_binary E sess cks au verify (build_g_archive_detail_referer i)))
       (map snd (enumerate0 atts))"
    by (simp add: case_prod_unfold comp_def)
  also have "map snd (enumerate0 atts) = atts"
    by (simp add: enumerate0_def)
  finally show ?thesis .
qed

lemma prefetch_loop_files:
  assumes loop: "prefetch_loop E sess cks verify i limit (enumerate0 atts) fs [] = (fs', recs)"
      and ai: "ai < length atts"
  shows "case download_binary E sess cks (atts ! ai) verify (build_g_archive_detail_referer i) of
           Inr (fname, data) \<Rightarrow>
             if limit < int (length data)
             then fs' (key_name i ai) = fs (key_name i ai) \<and> fs' (key_blob i ai) = fs (key_blob i ai)
             else fs' (key_name i ai) = Some (SName fname) \<and> fs' (key_blob i ai) = Some (SBlob data)
         | Inl e \<Rightarrow> fs' (key_name i ai) = fs (key_name i ai) \<and> fs' (key_blob i ai) = fs (key_blob i ai)"
proof -
  let ?es1 = "zip [0..<ai] (take ai atts)"
  let ?es2 = "zip [Suc ai..<length atts] (drop (Suc ai) atts)"
  let ?L = "prefetch_loop E sess cks verify i limit"
  have sp: "enumerate0 atts = ?es1 @ ((ai, atts ! ai) # ?es2)"
    by (rule enumerate0_split [OF ai])
  obtain fs1 recs1 where l1: "?L ?es1 fs [] = (fs1, recs1)" by (cases "?L ?es1 fs []")
  obtain fs2 recs2 where l2: "?L [(ai, atts ! ai)] fs1 recs1 = (fs2, recs2)"
    by (cases "?L [(ai, atts ! ai)] fs1 recs1")
  have l3: "?L ?es2 fs2 recs2 = (fs', recs)"
    using loop l1 l2 prefetch_loop_append [of E sess cks verify i limit ?es1 "(ai, atts ! ai) # ?es2" fs "[]"]
      prefetch_loop_append [of E sess cks verify i limit "[(ai, atts ! ai)]" ?es2 fs1 recs1]
    by (simp add: sp)
  have n1: "ai \<notin> fst ` set ?es1"
    by (auto dest: set_zip_leftD)
  have n2: "ai \<notin> fst ` set ?es2"
    by (auto dest: set_zip_leftD)
  have u1: "fs1 (key_name i ai) = fs (key_name i ai) \<and> fs1 (key_blob i ai) = fs (key_blob i ai)"
    by (rule prefetch_loop_untouched [OF l1 n1])
  have u3: "fs' (key_name i ai) = fs2 (key_name i ai) \<and> fs' (key_blob i ai) = fs2 (key_blob i ai)"
    by (rule prefetch_loop_untouched [OF l3 n2])
  show ?thesis
    using l2 u1 u3 key_name_blob [of i ai i ai]
    by (auto split: sum.splits prod.splits if_splits)
qed

lemma detail_row_prefetch:
  assumes "source_name cfg = Archive" "prefetch cfg"
      and "fetch_detail_body_and_soup E sess (cookies cfg) Archive (idx it) page (verify_ssl cfg)
             = Inr (bd, sd)"
      and "find_attachments_from_g_archive E sd \<noteq> []"
  shows "\<exists>fs recs.
           prefetch_loop E sess (cookies cfg) (verify_ssl cfg) (idx it)
             (max_prefetch_mb cfg * 1024 * 1024)
             (enumerate0 (find_attachments_from_g_archive E sd)) fs0 [] = (fs, recs) \<and>
           detail_row E cfg sess page it fs0 =
             Inr (\<lparr> idx = idx it, title = title it, body = bd,
                    attachments = Some (find_attachments_from_g_archive E sd),
                    prefetched = Some recs \<rparr>, fs)"
  using assms by (auto simp: detail_row_def Let_def split: prod.splits)

text \<open>What \<open>crawl_item\<close> does once the row is built: it follows the rendering.\<close>

lemma crawl_item_rendered:
  assumes "detail_row E cfg sess page it (files S) = Inr (r, fs)"
  shows "crawl_item E cfg sess page it S used =
           (case render_one_row r cfg fs used of
              Inl e \<Rightarrow> (S \<lparr> files := fs \<rparr>, used, Some e)
            | Inr used1 \<Rightarrow> (S \<lparr> results := results S @ [r], files := fs \<rparr>, used1, None))"
  using assms by (simp add: crawl_item_def)

lemma sample_atts:
  "find_attachments_from_g_archive sample_env sample_detail = [u ''/f/a.zip'', u ''/f/b.pdf'', u ''/f/c.pdf'']"
  by (simp add: find_attachments_from_g_archive_def sample_detail_def sample_env_def u_def)

lemma sample_fetch_detail:
  "fetch_detail_body_and_soup sample_env [] (JObject []) Archive (u ''7'') 1 False = Inr ([], sample_detail)"
  by (simp add: fetch_detail_body_and_soup_def get_checked_def sample_env_def sample_get_def
      raise_for_status_def extract_detail_def sample_detail_def u_def BASE_def)

lemma sample_download_a:
  "download_binary sample_env [] (JObject []) (u ''/f/a.zip'') False r = Inr (u ''a.zip'', [])"
  by (simp add: download_binary_def get_checked_def sample_env_def sample_get_def
      raise_for_status_def choose_name_def filename_from_cd_def basename_def unquote_def
      safe_filename_map sanitize_char_def unsafe_chars_def underscore_def
      strip_def lstrip_def rstrip_def isspace_def u_def)

lemma sample_download_b:
  "download_binary sample_env [] (JObject []) (u ''/f/b.pdf'') False r = Inr (u ''b.pdf'', [0])"
  by (simp add: download_binary_def get_checked_def sample_env_def sample_get_def
      raise_for_status_def choose_name_def filename_from_cd_def basename_def unquote_def
      safe_filename_map sanitize_char_def unsafe_chars_def underscore_def
      strip_def lstrip_def rstrip_def isspace_def u_def)

lemma sample_download_c:
  "download_binary sample_env [] (JObject []) (u ''/f/c.pdf'') False r = Inl (OtherError (u ''timeout''))"
  by (simp add: download_binary_def get_checked_def sample_env_def sample_get_def u_def)

section \<open>Facts about the widget keys and the rendering\<close>

lemma digits_range: "c \<in> set (digits n) \<Longrightarrow> 48 \<le> c \<and> c \<le> 57"
proof (induction n rule: digits.induct)
  case (1 n)
  show ?case
  proof (cases "n < 10")
    case True
    with 1(2) show ?thesis by (simp add: digits_simps [of n])
  next
    case False
    with 1 show ?thesis by (auto simp: digits_simps [of n])
  qed
qed

lemma str_int_no_underscore: "95 \<notin> set (str_int (int n))"
  using digits_range [of 95 n] by (auto simp: str_int_def)

lemma suffix_split:
  assumes "x @ 95 # da = y @ 95 # db" "(95::nat) \<notin> set da" "95 \<notin> set db"
  shows "x = y \<and> da = db"
proof -
  have "takeWhile (\<lambda>c. c \<noteq> 95) (rev (x @ 95 # da)) = rev da"
    using assms(2) by (auto simp: takeWhile_append2 takeWhile_tail)
  moreover have "takeWhile (\<lambda>c. c \<noteq> 95) (rev (y @ 95 # db)) = rev db"
    using assms(3) by (auto simp: takeWhile_append2 takeWhile_tail)
  ultimately have "da = db" using assms(1) by (metis rev_is_rev_conv)
  with assms(1) show ?thesis by simp
qed

lemma key_dl_inj: "key_dl i a = key_dl i b \<Longrightarrow> a = b"
  by (simp add: key_dl_def str_int_nat_inj)

lemma key_prep_inj: "key_prep i a = key_prep i b \<Longrightarrow> a = b"
  by (simp add: key_prep_def str_int_nat_inj)

lemma key_dl_ready_inj: "key_dl_ready i a = key_dl_ready i b \<Longrightarrow> a = b"
  by (simp add: key_dl_ready_def str_int_nat_inj)

lemma key_dl_prep: "key_dl i a \<noteq> key_prep j b"
  by (simp add: key_dl_def key_prep_def u_def)

lemma key_prep_dl_ready: "key_prep i a \<noteq> key_dl_ready j b"
  by (simp add: key_dl_ready_def key_prep_def u_def)

lemma key_dl_dl_ready: "key_dl i a \<noteq> key_dl_ready i b"
proof
  assume "key_dl i a = key_dl_ready i b"
  then have "i @ 95 # str_int (int a) = (u ''ready_'' @ i) @ 95 # str_int (int b)"
    by (simp add: key_dl_def key_dl_ready_def u_def)
  from suffix_split [OF this str_int_no_underscore str_int_no_underscore]
  have "i = u ''ready_'' @ i" by simp
  then have "length i = length (u ''ready_'' @ i)" by simp
  then show False by (simp add: u_def)
qed

lemma widget_fresh: "k \<notin> used \<Longrightarrow> widget k used = Inr (insert k used)"
  by (simp add: widget_def)

lemma render_attachments_fresh:
  assumes "distinct (map fst es)"
      and "\<forall>e\<in>set es. key_dl i (fst e) \<notin> used \<and> key_prep i (fst e) \<notin> used \<and>
                       key_dl_ready i (fst e) \<notin> used"
      and "\<forall>e\<in>set es. fst e < length pf \<and> ok (pf ! fst e) \<longrightarrow> fs (key_blob i (fst e)) \<noteq> None"
  shows "\<exists>used'. render_attachments cfg fs i pf es used = Inr used'"
  using assms
proof (induction es arbitrary: used)
  case Nil
  then show ?case by simp
next
  case (Cons a es)
  obtain ai au where a: "a = (ai, au)" by (cases a)
  have fresh: "key_dl i ai \<notin> used" "key_prep i ai \<notin> used" "key_dl_ready i ai \<notin> used"
    using Cons.prems(2) a by auto
  have d: "distinct (map fst es)" "\<forall>e\<in>set es. fst e \<noteq> ai"
    using Cons.prems(1) a by auto
  have b: "\<forall>e\<in>set es. fst e < length pf \<and> ok (pf ! fst e) \<longrightarrow> fs (key_blob i (fst e)) \<noteq> None"
    using Cons.prems(3) by simp
  have rest: "\<And>K. K \<subseteq> {key_dl i ai, key_prep i ai, key_dl_ready i ai} \<Longrightarrow>
      \<exists>used'. render_attachments cfg fs i pf es (K \<union> used) = Inr used'"
  proof -
    fix K assume K: "K \<subseteq> {key_dl i ai, key_prep i ai, key_dl_ready i ai}"
    have "\<forall>e\<in>set es. key_dl i (fst e) \<notin> K \<union> used \<and> key_prep i (fst e) \<notin> K \<union> used \<and>
                       key_dl_ready i (fst e) \<notin> K \<union> used"
    proof
      fix e assume e: "e \<in> set es"
      then have ne: "fst e \<noteq> ai" using d(2) by simp
      have u: "key_dl i (fst e) \<notin> used" "key_prep i (fst e) \<notin> used" "key_dl_ready i (fst e) \<notin> used"
        using Cons.prems(2) e by auto
      have k1: "key_dl i (fst e) \<notin> {key_dl i ai, key_prep i ai, key_dl_ready i ai}"
        using ne key_dl_inj [of i "fst e" ai] key_dl_prep [of i "fst e" i ai]
          key_dl_dl_ready [of i "fst e" ai] by auto
      have k2: "key_prep i (fst e) \<notin> {key_dl i ai, key_prep i ai, key_dl_ready i ai}"
        using ne key_prep_inj [of i "fst e" ai] key_dl_prep [of i ai i "fst e"]
          key_prep_dl_ready [of i "fst e" i ai] by auto
      have k3: "key_dl_ready i (fst e) \<notin> {key_dl i ai, key_prep i ai, key_dl_ready i ai}"
        using ne key_dl_ready_inj [of i "fst e" ai] key_dl_dl_ready [of i ai "fst e"]
          key_prep_dl_ready [of i ai i "fst e"] by auto
      show "key_dl i (fst e) \<notin> K \<union> used \<and> key_prep i (fst e) \<notin> K \<union> used \<and>
            key_dl_ready i (fst e) \<notin> K \<union> used"
        using u k1 k2 k3 K by blast
    qed
    from Cons.IH [OF d(1) this b] show "\<exists>used'. render_attachments cfg fs i pf es (K \<union> used) = Inr used'" .
  qed
  have r1: "\<exists>used'. render_attachments cfg fs i pf es (insert (key_dl i ai) used) = Inr used'"
    using rest [of "{key_dl i ai}"] by simp
  have r2: "\<exists>used'. render_attachments cfg fs i pf es (insert (key_prep i ai) used) = Inr used'"
    using rest [of "{key_prep i ai}"] by simp
  have r3: "\<exists>used'. render_attachments cfg fs i pf es
       (insert (key_dl_ready i ai) (insert (key_prep i ai) used)) = Inr used'"
    using rest [of "{key_dl_ready i ai, key_prep i ai}"] by simp
  have fresh2: "key_dl_ready i ai \<notin> insert (key_prep i ai) used"
    using fresh(3) key_prep_dl_ready [of i ai i ai] by auto
  show ?case
  proof (cases "prefetch cfg \<and> pf \<noteq> [] \<and> ai < length pf \<and> ok (pf ! ai)")
    case True
    then obtain bl where bl: "fs (key_blob i ai) = Some bl"
      using Cons.prems(3) a by auto
    show ?thesis unfolding a using True bl r1 by (simp add: widget_fresh [OF fresh(1)])
  next
    case False
    show ?thesis unfolding a using False r2 r3
      by (auto simp: widget_fresh [OF fresh(2)] widget_fresh [OF fresh2])
  qed
qed

lemma prefetch_ok_stored:
  assumes loop: "prefetch_loop E sess cks verify i limit (enumerate0 atts) fs [] = (fs', recs)"
      and ai: "ai < length atts" and okr: "ok (recs ! ai)"
  shows "fs' (key_blob i ai) \<noteq> None"
proof -
  let ?d = "download_binary E sess cks (atts ! ai) verify (build_g_archive_detail_referer i)"
  have "recs ! ai = prefetch_record E limit ?d"
    using prefetch_loop_enumerate [OF loop] ai by simp
  with okr have o: "ok (prefetch_record E limit ?d)" by simp
  show ?thesis
    using prefetch_loop_files [OF loop ai] o
    by (auto simp: prefetch_record_def split: sum.splits prod.splits if_splits)
qed

lemma render_one_row_fresh:
  assumes loop: "prefetch_loop E sess cks verify i limit (enumerate0 atts) fs [] = (fs', recs)"
      and r: "idx r = i" "attachments r = Some atts" "prefetched r = Some recs"
      and fresh: "\<forall>ai<length atts. key_dl i ai \<notin> used \<and> key_prep i ai \<notin> used \<and>
                     key_dl_ready i ai \<notin> used"
  shows "\<exists>used'. render_one_row r cfg fs' used = Inr used'"
proof -
  have len: "length recs = length atts"
    using prefetch_loop_enumerate [OF loop] by simp
  have m: "\<And>e. e \<in> set (enumerate0 atts) \<Longrightarrow> fst e < length atts"
    by (auto simp: enumerate0_def dest: set_zip_leftD)
  have d: "distinct (map fst (enumerate0 atts))"
    by (simp add: enumerate0_def)
  have f: "\<forall>e\<in>set (enumerate0 atts). key_dl i (fst e) \<notin> used \<and> key_prep i (fst e) \<notin> used \<and>
                       key_dl_ready i (fst e) \<notin> used"
    using fresh m by blast
  have b: "\<And>pf. pf = recs \<or> pf = [] \<Longrightarrow> \<forall>e\<in>set (enumerate0 atts). fst e < length pf \<and> ok (pf ! fst e) \<longrightarrow>
             fs' (key_blob i (fst e)) \<noteq> None"
    using prefetch_ok_stored [OF loop] m by auto
  have "\<exists>used'. render_attachments cfg fs' i recs (enumerate0 atts) used = Inr used'"
    by (rule render_attachments_fresh [OF d f b]) simp
  moreover have "\<exists>used'. render_attachments cfg fs' i [] (enumerate0 atts) used = Inr used'"
    by (rule render_attachments_fresh [OF d f b]) simp
  ultimately show ?thesis
    using r by (auto simp: render_one_row_def Let_def)
qed

section \<open>Facts about the crawl loop\<close>









section \<open>Facts about the patterns and the percent-decoding\<close>

lemmas re_defs = re_cd_ext_def re_cd_plain_def filename_i_def lit_def lit_i_def spaces_def
  quote_def dquote_def semicolon_def

lemma match_here_Cons:
  "match_here (a # r) s cap =
     try_each r s cap (grp a) (candidates (rep a) (length (takeWhile (cls a) s)))"
  by (simp add: try_each_def)

lemma try_each_Nil: "try_each r s cap g [] = None"
  by (simp add: try_each_def)

lemma try_each_Cons:
  "try_each r s cap g (k # ks) =
     (case match_here r (drop k s) (if g then take k s else cap) of
        Some y \<Rightarrow> Some y
      | None \<Rightarrow> try_each r s cap g ks)"
  by (simp add: try_each_def split: option.splits)

lemmas re_eval = match_here_Cons try_each_Nil try_each_Cons

lemma first_some_Some:
  "first_some f ks = Some x \<Longrightarrow> \<exists>k\<in>set ks. f k = Some x"
  by (induction ks) (auto split: option.splits)

lemma match_here_needs_char:
  "match_here (pre @ a # post) s cap = Some x \<Longrightarrow> rep a = Once \<Longrightarrow> \<exists>c\<in>set s. cls a c"
proof (induction pre arbitrary: s cap)
  case Nil
  then obtain k where k: "k \<in> set (candidates Once (length (takeWhile (cls a) s)))"
    by (auto dest!: first_some_Some)
  then have "takeWhile (cls a) s \<noteq> []" by (auto split: if_splits)
  then show ?case by (cases s) (auto split: if_splits)
next
  case (Cons b pre)
  from Cons.prems(1) obtain k where
    "match_here (pre @ a # post) (drop k s) (if grp b then take k s else cap) = Some x"
    by (auto dest!: first_some_Some)
  from Cons.IH [OF this Cons.prems(2)] show ?case
    by (meson in_set_dropD)
qed

lemma re_search_needs_char:
  "re_search (pre @ a # post) s = Some g \<Longrightarrow> rep a = Once \<Longrightarrow> \<exists>c\<in>set s. cls a c"
proof (induction s)
  case Nil
  then obtain x where "match_here (pre @ a # post) [] [] = Some x" by auto
  from match_here_needs_char [OF this Nil(2)] show ?case .
next
  case (Cons c cs)
  show ?case
  proof (cases "match_here (pre @ a # post) (c # cs) []")
    case None
    with Cons show ?thesis by auto
  next
    case (Some x)
    from match_here_needs_char [OF this Cons.prems(2)] show ?thesis .
  qed
qed

lemma cd_needs_equals:
  assumes "61 \<notin> set h"
  shows "re_search re_cd_ext h = None \<and> re_search re_cd_plain h = None"
proof -
  let ?eq = "lit CHR ''=''"
  have l: "rep ?eq = Once" "\<And>c. cls ?eq c \<longleftrightarrow> c = 61"
    by (simp_all add: lit_def)
  have e: "\<exists>pre post. re_cd_ext = pre @ ?eq # post"
    unfolding re_cd_ext_def
    by (rule exI [of _ "filename_i @ [lit CHR ''*'', spaces]"], rule exI) simp
  have p: "\<exists>pre post. re_cd_plain = pre @ ?eq # post"
    unfolding re_cd_plain_def
    by (rule exI [of _ "filename_i @ [spaces]"], rule exI) simp
  have n: "re_search (pre @ ?eq # post) h = None" for pre post
  proof (cases "re_search (pre @ ?eq # post) h")
    case None
    then show ?thesis .
  next
    case (Some g)
    from re_search_needs_char [OF Some l(1)] l(2) assms show ?thesis by auto
  qed
  from e obtain pe qe where "re_cd_ext = pe @ ?eq # qe" by blast
  then have 1: "re_search re_cd_ext h = None" using n [of pe qe] by simp
  from p obtain pp qp where "re_cd_plain = pp @ ?eq # qp" by blast
  then have 2: "re_search re_cd_plain h = None" using n [of pp qp] by simp
  from 1 2 show ?thesis by simp
qed

lemma cd_neither_example:
  "filename_from_cd (Some (u ''attachment'')) = None"
proof -
  have "61 \<notin> set (u ''attachment'')" by (simp add: u_def)
  from cd_needs_equals [OF this] show ?thesis by (simp add: filename_from_cd_def)
qed

lemma cd_plain_example:
  "filename_from_cd (Some (u ''filename='' @ [dquote] @ u ''plain.txt'' @ [dquote])) = Some (u ''plain.txt'')"
  by (simp add: filename_from_cd_def u_def re_defs re_eval isspace_def del: match_here.simps(2))

lemmas unquote_defs = unquote_def hexval_def cont_def second_ok_def replacement_def

lemma cd_ext_example:
  "filename_from_cd (Some (u ''filename*=UTF-8'' @ [quote, quote] @ u ''%ED%95%9C%EA%B8%80.pdf''))
     = Some ([54620, 44544] @ u ''.pdf'')"
  by (simp add: filename_from_cd_def u_def re_defs re_eval isspace_def unquote_defs
      del: match_here.simps(2))

lemma cd_ext_example2:
  "filename_from_cd (Some (u ''attachment; filename*=UTF-8'' @ [quote, quote] @ u ''%ED%95%9C%EA%B8%80.pdf''))
     = Some ([54620, 44544] @ u ''.pdf'')"
  by (simp add: filename_from_cd_def u_def re_defs re_eval isspace_def unquote_defs
      del: match_here.simps(2))

lemma cd_both_example:
  "filename_from_cd (Some (u ''attachment; filename='' @ [dquote] @ u ''x.txt'' @ [dquote] @
      u ''; filename*=UTF-8'' @ [quote, quote] @ u ''y%20z.txt''))
     = Some (u ''y z.txt'')"
  by (simp add: filename_from_cd_def u_def re_defs re_eval isspace_def unquote_defs
      del: match_here.simps(2))

lemma candidates_range:
  "k \<in> set (candidates q n) \<Longrightarrow> k \<le> n \<and> (q = Once \<or> q = Plus \<longrightarrow> 1 \<le> k)"
  by (cases q) (auto split: if_splits)

lemma match_here_capture:
  "match_here r s cap = Some (g, rest) \<Longrightarrow>
   cap \<noteq> [] \<or> (\<exists>a\<in>set r. grp a) \<Longrightarrow>
   (\<forall>a\<in>set r. grp a \<longrightarrow> rep a = Plus \<or> rep a = Once) \<Longrightarrow> g \<noteq> []"
proof (induction r arbitrary: s cap)
  case Nil
  then show ?case by simp
next
  case (Cons a r)
  let ?n = "length (takeWhile (cls a) s)"
  from Cons.prems(1) obtain k where
    k: "k \<in> set (candidates (rep a) ?n)"
    and m: "match_here r (drop k s) (if grp a then take k s else cap) = Some (g, rest)"
    by (auto dest!: first_some_Some)
  have rest: "\<forall>a\<in>set r. grp a \<longrightarrow> rep a = Plus \<or> rep a = Once"
    using Cons.prems(3) by simp
  show ?case
  proof (cases "grp a")
    case True
    then have "rep a = Plus \<or> rep a = Once" using Cons.prems(3) by simp
    with candidates_range [OF k] have "1 \<le> k" "k \<le> ?n" by auto
    moreover have "?n \<le> length s" by (rule length_takeWhile_le)
    ultimately have "take k s \<noteq> []" by (cases s) auto
    with m True show ?thesis using Cons.IH [OF _ _ rest] by auto
  next
    case False
    with Cons.prems(2) have "cap \<noteq> [] \<or> (\<exists>a\<in>set r. grp a)" by auto
    with m False show ?thesis using Cons.IH [OF _ _ rest] by auto
  qed
qed

lemma re_search_capture:
  assumes "re_search r s = Some g" "\<exists>a\<in>set r. grp a"
      and "\<forall>a\<in>set r. grp a \<longrightarrow> rep a = Plus \<or> rep a = Once"
  shows "g \<noteq> []"
  using assms
proof (induction s)
  case Nil
  then obtain rest where "match_here r [] [] = Some (g, rest)" by auto
  from match_here_capture [OF this _ Nil(3)] Nil(2) show ?case by blast
next
  case (Cons c cs)
  show ?case
  proof (cases "match_here r (c # cs) []")
    case None
    with Cons show ?thesis by auto
  next
    case (Some x)
    with Cons.prems(1) have "match_here r (c # cs) [] = Some (g, snd x)"
      by (cases x) auto
    from match_here_capture [OF this _ Cons.prems(3)] Cons.prems(2) show ?thesis by blast
  qed
qed

lemma unquote_to_bytes_nonempty: "s \<noteq> [] \<Longrightarrow> unquote_to_bytes s \<noteq> []"
  by (cases s) (auto split: list.splits option.splits)

lemma utf8_decode_nonempty: "bs \<noteq> [] \<Longrightarrow> utf8_decode bs \<noteq> []"
  by (cases bs) (auto split: list.splits)

lemma unquote_nonempty: "s \<noteq> [] \<Longrightarrow> unquote s \<noteq> []"
proof (cases s)
  case Nil
  then show "s \<noteq> [] \<Longrightarrow> ?thesis" by simp
next
  case (Cons c cs)
  have "utf8_decode (unquote_to_bytes (takeWhile (\<lambda>x. x < 128) (c # cs))) \<noteq> []" if "c < 128"
    using that by (intro utf8_decode_nonempty unquote_to_bytes_nonempty) simp
  then show ?thesis using Cons by (auto simp: unquote_def)
qed

lemma re_cd_groups:
  "(\<exists>a\<in>set re_cd_ext. grp a) \<and> (\<forall>a\<in>set re_cd_ext. grp a \<longrightarrow> rep a = Plus \<or> rep a = Once)
   \<and> (\<exists>a\<in>set re_cd_plain. grp a) \<and> (\<forall>a\<in>set re_cd_plain. grp a \<longrightarrow> rep a = Plus \<or> rep a = Once)"
  by (simp add: re_defs)

lemma filename_from_cd_nonempty: "filename_from_cd cd = Some n \<Longrightarrow> n \<noteq> []"
  using re_cd_groups re_search_capture [of re_cd_ext] re_search_capture [of re_cd_plain]
    unquote_nonempty
  by (auto simp: filename_from_cd_def split: option.splits if_splits)

section \<open>Claims\<close>



text \<open>
  C3. During eager prefetch with the cap of \<open>max_prefetch_mb * 1024 * 1024\<close> bytes, the
  row that is built has one record for every attachment, at its own index. For an
  attachment whose download has more bytes than the cap, the record is
  \<open>{ok: false, reason: "limit", name}\<close> and the prefetch leaves the entries
  \<open>blob_{idx}_{ai}\<close> and \<open>name_{idx}_{ai}\<close> of that attachment as they were (it stores no
  prepared file). For an attachment with at most that many bytes, the record is
  \<open>{ok: true, name}\<close> and the name and the content are stored under these two keys.
  The files are in the session state after the item whether the rendering of the row
  raises or not; the row is appended to the results when it does not.
\<close>

theorem prefetch_size_cap:
  assumes "source_name cfg = Archive" and "prefetch cfg"
      and "fetch_detail_body_and_soup E sess (cookies cfg) Archive (idx it) page (verify_ssl cfg)
             = Inr (bd, sd)"
      and "find_attachments_from_g_archive E sd = atts" and "ai < length atts"
      and "download_binary E sess (cookies cfg) (atts ! ai) (verify_ssl cfg)
             (build_g_archive_detail_referer (idx it)) = Inr (fname, data)"
  shows "\<exists>r fs recs.
           detail_row E cfg sess page it (files S) = Inr (r, fs) \<and>
           idx r = idx it \<and> attachments r = Some atts \<and>
           prefetched r = Some recs \<and> length recs = length atts \<and>
           (max_prefetch_mb cfg * 1024 * 1024 < int (length data) \<longrightarrow>
              recs ! ai = \<lparr> ok = False, reason = Some (u ''limit''), name = Some fname \<rparr> \<and>
              fs (key_blob (idx it) ai) = files S (key_blob (idx it) ai) \<and>
              fs (key_name (idx it) ai) = files S (key_name (idx it) ai)) \<and>
           (int (length data) \<le> max_prefetch_mb cfg * 1024 * 1024 \<longrightarrow>
              recs ! ai = \<lparr> ok = True, reason = None, name = Some fname \<rparr> \<and>
              fs (key_name (idx it) ai) = Some (SName fname) \<and>
              fs (key_blob (idx it) ai) = Some (SBlob data)) \<and>
           crawl_item E cfg sess page it S used =
             (case render_one_row r cfg fs used of
                Inl x \<Rightarrow> (S \<lparr> files := fs \<rparr>, used, Some x)
              | Inr used1 \<Rightarrow> (S \<lparr> results := results S @ [r], files := fs \<rparr>, used1, None))"
proof -
  let ?X = "max_prefetch_mb cfg * 1024 * 1024"
  have ne: "find_attachments_from_g_archive E sd \<noteq> []" using assms(4,5) by auto
  obtain fs recs where
    loop: "prefetch_loop E sess (cookies cfg) (verify_ssl cfg) (idx it) ?X (enumerate0 atts)
             (files S) [] = (fs, recs)"
    and dr: "detail_row E cfg sess page it (files S) =
             Inr (\<lparr> idx = idx it, title = title it, body = bd,
                    attachments = Some atts, prefetched = Some recs \<rparr>, fs)"
    using detail_row_prefetch [OF assms(1,2,3) ne, of "files S"] assms(4) by auto
  have r: "recs = map (\<lambda>au. prefetch_record E ?X
            (download_binary E sess (cookies cfg) au (verify_ssl cfg)
               (build_g_archive_detail_referer (idx it)))) atts"
    by (rule prefetch_loop_enumerate [OF loop])
  have ri: "recs ! ai = prefetch_record E ?X (Inr (fname, data))"
    using r assms(5,6) by simp
  have f: "if ?X < int (length data)
           then fs (key_name (idx it) ai) = files S (key_name (idx it) ai) \<and>
                fs (key_blob (idx it) ai) = files S (key_blob (idx it) ai)
           else fs (key_name (idx it) ai) = Some (SName fname) \<and>
                fs (key_blob (idx it) ai) = Some (SBlob data)"
    using prefetch_loop_files [OF loop assms(5)] assms(6) by simp
  show ?thesis
    using dr crawl_item_rendered [OF dr, of used] r ri f by (auto simp: prefetch_record_def)
qed

theorem prefetch_size_cap_witness:
  "source_name sample_config = Archive \<and> prefetch sample_config
   \<and> fetch_detail_body_and_soup sample_env [] (cookies sample_config) Archive (idx sample_item) 1
        (verify_ssl sample_config) = Inr ([], sample_detail)
   \<and> find_attachments_from_g_archive sample_env sample_detail
        = [u ''/f/a.zip'', u ''/f/b.pdf'', u ''/f/c.pdf'']
   \<and> download_binary sample_env [] (cookies sample_config) (u ''/f/b.pdf'') (verify_ssl sample_config)
        (build_g_archive_detail_referer (idx sample_item)) = Inr (u ''b.pdf'', [0])
   \<and> max_prefetch_mb sample_config * 1024 * 1024 < int (length [0 :: byte])
   \<and> (\<exists>r fs recs. detail_row sample_env sample_config [] 1 sample_item (files sample_state) = Inr (r, fs) \<and>
         prefetched r = Some recs \<and> length recs = 3 \<and>
         recs ! 1 = \<lparr> ok = False, reason = Some (u ''limit''), name = Some (u ''b.pdf'') \<rparr> \<and>
         fs (key_blob (idx sample_item) 1) = None \<and>
         fst (crawl_item sample_env sample_config [] 1 sample_item sample_state {}) =
           sample_state \<lparr> results := [r], files := fs \<rparr>)"
proof -
  have c: "source_name sample_config = Archive" "prefetch sample_config"
    "cookies sample_config = JObject []" "verify_ssl sample_config = False"
    "max_prefetch_mb sample_config = 0" "idx sample_item = u ''7''"
    "files sample_state = Map.empty" "results sample_state = []"
    by (simp_all add: sample_config_def sample_item_def sample_state_def)
  have d: "fetch_detail_body_and_soup sample_env [] (cookies sample_config) Archive
      (idx sample_item) 1 (verify_ssl sample_config) = Inr ([], sample_detail)"
    using sample_fetch_detail by (simp add: c)
  have b: "download_binary sample_env [] (cookies sample_config)
      ([u ''/f/a.zip'', u ''/f/b.pdf'', u ''/f/c.pdf''] ! 1) (verify_ssl sample_config)
      (build_g_archive_detail_referer (idx sample_item)) = Inr (u ''b.pdf'', [0])"
    using sample_download_b by (simp add: c)
  from prefetch_size_cap [OF c(1) c(2) d sample_atts _ b, of sample_state "{}"]
  obtain r fs recs where
    s: "detail_row sample_env sample_config [] 1 sample_item (files sample_state) = Inr (r, fs)"
    "idx r = idx sample_item" "attachments r = Some [u ''/f/a.zip'', u ''/f/b.pdf'', u ''/f/c.pdf'']"
    "prefetched r = Some recs" "length recs = 3"
    "recs ! 1 = \<lparr> ok = False, reason = Some (u ''limit''), name = Some (u ''b.pdf'') \<rparr>"
    "fs (key_blob (idx sample_item) 1) = None"
    and ci: "crawl_item sample_env sample_config [] 1 sample_item sample_state {} =
             (case render_one_row r sample_config fs {} of
                Inl x \<Rightarrow> (sample_state \<lparr> files := fs \<rparr>, {}, Some x)
              | Inr used1 \<Rightarrow> (sample_state \<lparr> results := results sample_state @ [r], files := fs \<rparr>, used1, None))"
    by (auto simp: c)
  have loop: "prefetch_loop sample_env [] (JObject []) False (u ''7'') 0
      (enumerate0 [u ''/f/a.zip'', u ''/f/b.pdf'', u ''/f/c.pdf'']) Map.empty [] = (fs, recs)"
    using s(1,4) detail_row_prefetch [OF c(1) c(2) d, where ?fs0.0 = Map.empty] sample_atts
    by (auto simp: c)
  obtain used' where "render_one_row r sample_config fs {} = Inr used'"
    using render_one_row_fresh [OF loop _ s(3) s(4), where used = "{}" and cfg = sample_config] s(2) c(6) by auto
  with ci have "fst (crawl_item sample_env sample_config [] 1 sample_item sample_state {}) =
           sample_state \<lparr> results := [r], files := fs \<rparr>"
    by (simp add: c)
  with s show ?thesis using c d b sample_atts by auto
qed

text \<open>
  C4. During eager prefetch, a download that raises is recorded as
  \<open>{ok: false, reason: str(e)}\<close> at the index of its attachment, and every attachment,
  before and after the failed one, has the record of its own download. The exception
  of the download never ends the item: the only exception the item can end with, once
  the detail page is fetched, is one of the rendering of the row. When no widget key
  of the item has been used earlier in the run, the rendering raises nothing, the row
  is appended and the loop over the items goes on with the next item.
\<close>

theorem prefetch_failure_recorded:
  assumes "source_name cfg = Archive" and "prefetch cfg"
      and "fetch_detail_body_and_soup E sess (cookies cfg) Archive (idx it) page (verify_ssl cfg)
             = Inr (bd, sd)"
      and "find_attachments_from_g_archive E sd = atts" and "ai < length atts"
      and "download_binary E sess (cookies cfg) (atts ! ai) (verify_ssl cfg)
             (build_g_archive_detail_referer (idx it)) = Inl e"
  shows "\<exists>r fs recs.
           detail_row E cfg sess page it (files S) = Inr (r, fs) \<and>
           prefetched r = Some recs \<and> length recs = length atts \<and>
           recs ! ai = \<lparr> ok = False, reason = Some (exn_str E e), name = None \<rparr> \<and>
           (\<forall>aj<length atts. recs ! aj =
              prefetch_record E (max_prefetch_mb cfg * 1024 * 1024)
                (download_binary E sess (cookies cfg) (atts ! aj) (verify_ssl cfg)
                   (build_g_archive_detail_referer (idx it)))) \<and>
           snd (snd (crawl_item E cfg sess page it S used)) =
             (case render_one_row r cfg fs used of Inl x \<Rightarrow> Some x | Inr used1 \<Rightarrow> None) \<and>
           ((\<forall>aj<length atts. key_dl (idx it) aj \<notin> used \<and> key_prep (idx it) aj \<notin> used \<and>
                               key_dl_ready (idx it) aj \<notin> used) \<longrightarrow>
            (\<exists>used'. render_one_row r cfg fs used = Inr used' \<and>
               crawl_item E cfg sess page it S used =
                 (S \<lparr> results := results S @ [r], files := fs \<rparr>, used', None) \<and>
               items_loop E cfg sess page (it # its) S used =
                 items_loop E cfg sess page its (S \<lparr> results := results S @ [r], files := fs \<rparr>) used'))"
proof -
  let ?X = "max_prefetch_mb cfg * 1024 * 1024"
  have ne: "find_attachments_from_g_archive E sd \<noteq> []" using assms(4,5) by auto
  obtain fs recs where
    loop: "prefetch_loop E sess (cookies cfg) (verify_ssl cfg) (idx it) ?X (enumerate0 atts)
             (files S) [] = (fs, recs)"
    and dr: "detail_row E cfg sess page it (files S) =
             Inr (\<lparr> idx = idx it, title = title it, body = bd,
                    attachments = Some atts, prefetched = Some recs \<rparr>, fs)"
    using detail_row_prefetch [OF assms(1,2,3) ne, of "files S"] assms(4) by auto
  let ?r = "\<lparr> idx = idx it, title = title it, body = bd,
              attachments = Some atts, prefetched = Some recs \<rparr>"
  have r: "recs = map (\<lambda>au. prefetch_record E ?X
            (download_binary E sess (cookies cfg) au (verify_ssl cfg)
               (build_g_archive_detail_referer (idx it)))) atts"
    by (rule prefetch_loop_enumerate [OF loop])
  have ri: "recs ! ai = \<lparr> ok = False, reason = Some (exn_str E e), name = None \<rparr>"
    using r assms(5,6) by (simp add: prefetch_record_def)
  have ci: "crawl_item E cfg sess page it S used =
           (case render_one_row ?r cfg fs used of
              Inl x \<Rightarrow> (S \<lparr> files := fs \<rparr>, used, Some x)
            | Inr used1 \<Rightarrow> (S \<lparr> results := results S @ [?r], files := fs \<rparr>, used1, None))"
    by (rule crawl_item_rendered [OF dr])
  have ex: "snd (snd (crawl_item E cfg sess page it S used)) =
             (case render_one_row ?r cfg fs used of Inl x \<Rightarrow> Some x | Inr used1 \<Rightarrow> None)"
    unfolding ci by (simp split: sum.splits)
  have go: "\<exists>used'. render_one_row ?r cfg fs used = Inr used' \<and>
               crawl_item E cfg sess page it S used =
                 (S \<lparr> results := results S @ [?r], files := fs \<rparr>, used', None) \<and>
               items_loop E cfg sess page (it # its) S used =
                 items_loop E cfg sess page its (S \<lparr> results := results S @ [?r], files := fs \<rparr>) used'"
    if fresh: "\<forall>aj<length atts. key_dl (idx it) aj \<notin> used \<and> key_prep (idx it) aj \<notin> used \<and>
                               key_dl_ready (idx it) aj \<notin> used"
  proof -
    obtain used' where u: "render_one_row ?r cfg fs used = Inr used'"
      using render_one_row_fresh [OF loop _ _ _ fresh, where r = ?r and cfg = cfg] by auto
    show ?thesis using u ci by simp
  qed
  show ?thesis
    using dr r ri ex go by (intro exI [of _ ?r] exI [of _ fs] exI [of _ recs]) simp
qed

theorem prefetch_failure_recorded_witness:
  "download_binary sample_env [] (cookies sample_config) (u ''/f/c.pdf'') (verify_ssl sample_config)
        (build_g_archive_detail_referer (idx sample_item)) = Inl (OtherError (u ''timeout''))
   \<and> (\<exists>r fs recs used'.
         detail_row sample_env sample_config [] 1 sample_item (files sample_state) = Inr (r, fs) \<and>
         prefetched r = Some recs \<and> length recs = 3 \<and>
         recs ! 2 = \<lparr> ok = False, reason = Some (u ''timeout''), name = None \<rparr> \<and>
         recs ! 0 = \<lparr> ok = True, reason = None, name = Some (u ''a.zip'') \<rparr> \<and>
         items_loop sample_env sample_config [] 1 [sample_item] sample_state {} =
           (sample_state \<lparr> results := [r], files := fs \<rparr>, used', None))"
proof -
  have c: "source_name sample_config = Archive" "prefetch sample_config"
    "cookies sample_config = JObject []" "verify_ssl sample_config = False"
    "max_prefetch_mb sample_config = 0" "idx sample_item = u ''7''"
    "results sample_state = []"
    by (simp_all add: sample_config_def sample_item_def sample_state_def)
  have d: "fetch_detail_body_and_soup sample_env [] (cookies sample_config) Archive
      (idx sample_item) 1 (verify_ssl sample_config) = Inr ([], sample_detail)"
    using sample_fetch_detail by (simp add: c)
  have b: "download_binary sample_env [] (cookies sample_config)
      ([u ''/f/a.zip'', u ''/f/b.pdf'', u ''/f/c.pdf''] ! 2) (verify_ssl sample_config)
      (build_g_archive_detail_referer (idx sample_item)) = Inl (OtherError (u ''timeout''))"
    using sample_download_c by (simp add: c)
  have x: "exn_str sample_env (OtherError (u ''timeout'')) = u ''timeout''"
    by (simp add: sample_env_def)
  from prefetch_failure_recorded [OF c(1) c(2) d sample_atts _ b, of sample_state "{}" "[]"]
  obtain r fs recs used' where
    "detail_row sample_env sample_config [] 1 sample_item (files sample_state) = Inr (r, fs)"
    "prefetched r = Some recs" "length recs = 3"
    "recs ! 2 = \<lparr> ok = False, reason = Some (u ''timeout''), name = None \<rparr>"
    "recs ! 0 = prefetch_record sample_env 0
        (download_binary sample_env [] (JObject []) (u ''/f/a.zip'') False
           (build_g_archive_detail_referer (u ''7'')))"
    "items_loop sample_env sample_config [] 1 [sample_item] sample_state {} =
       (sample_state \<lparr> results := [r], files := fs \<rparr>, used', None)"
    by (auto simp: c x)
  then show ?thesis using b sample_download_a by (auto simp: c prefetch_record_def)
qed

text \<open>
  C5 (as amended). When the cookie text is empty (after trimming) or is not valid JSON,
  the captured configuration holds an empty mapping for the cookies. When the header
  text is empty or is not valid JSON, the captured configuration holds the default
  header set of the selected source, not an empty mapping. Capturing the configuration
  always returns, and the warnings it shows are exactly these: one for the cookie text
  and then one for the header text, each only when the text is not empty and the
  parser raises on it, and each carrying the text of the parser's exception.
\<close>

theorem capture_config_invalid_json:
  "(strip (w_cookies_json w) = [] \<or> (\<exists>e. loads (strip (w_cookies_json w)) = Inl e)
      \<longrightarrow> cookies (fst (capture_config loads w)) = JObject [])
   \<and> (strip (w_headers_json w) = [] \<or> (\<exists>e. loads (strip (w_headers_json w)) = Inl e)
      \<longrightarrow> headers (fst (capture_config loads w)) = default_headers (w_source_name w))
   \<and> snd (capture_config loads w) =
       (if strip (w_cookies_json w) = [] then []
        else case loads (strip (w_cookies_json w)) of Inl e \<Rightarrow> [json_warning e] | Inr v \<Rightarrow> [])
       @ (if strip (w_headers_json w) = [] then []
          else case loads (strip (w_headers_json w)) of Inl e \<Rightarrow> [json_warning e] | Inr v \<Rightarrow> [])"
  by (auto simp: capture_config_def parse_json_or_empty_def Let_def split: sum.splits prod.splits)

theorem capture_config_invalid_json_witness:
  "strip (w_cookies_json sample_widgets) = []
   \<and> strip (w_headers_json sample_widgets) = u ''{bad''
   \<and> reject_all (strip (w_headers_json sample_widgets)) = Inl (u ''Expecting value'')
   \<and> cookies (fst (capture_config reject_all sample_widgets)) = JObject []
   \<and> headers (fst (capture_config reject_all sample_widgets)) = default_headers News
   \<and> snd (capture_config reject_all sample_widgets) = [json_warning (u ''Expecting value'')]"
proof -
  have a: "strip (w_cookies_json sample_widgets) = []"
    by (simp add: sample_widgets_def u_def strip_def lstrip_def rstrip_def isspace_def)
  have b: "reject_all (strip (w_headers_json sample_widgets)) = Inl (u ''Expecting value'')"
    by (simp add: reject_all_def)
  have c: "strip (w_headers_json sample_widgets) = u ''{bad''"
    by (simp add: sample_widgets_def u_def strip_def lstrip_def rstrip_def isspace_def)
  have c': "u ''{bad'' \<noteq> []"
    by (simp add: u_def)
  have d: "w_source_name sample_widgets = News"
    by (simp add: sample_widgets_def)
  from capture_config_invalid_json [of sample_widgets reject_all] a b c c' d
  show ?thesis by auto
qed

text \<open>
  The claim as written fails for the headers: with an empty header text the captured
  headers are the default header set, which is not the empty mapping.
\<close>

theorem capture_config_headers_counterexample:
  "strip (w_headers_json (sample_widgets \<lparr> w_headers_json := [] \<rparr>)) = []
   \<and> headers (fst (capture_config reject_all (sample_widgets \<lparr> w_headers_json := [] \<rparr>)))
       \<noteq> JObject []"
  by (simp add: capture_config_def parse_json_or_empty_def Let_def sample_widgets_def
      default_headers_def strip_def lstrip_def rstrip_def u_def isspace_def)

text \<open>
  C7. For every input, \<open>normalize_paragraphs\<close> whitespace-normalizes each line, collapses
  the runs of blank lines, and trims the result:
  \<^item> the non-blank lines of the result are the non-blank lines of the input, each passed
    through \<open>clean_spaces\<close>, in the same order;
  \<^item> a line passed through \<open>clean_spaces\<close> is trimmed, its only whitespace is the
    space, and no two whitespace characters are adjacent;
  \<^item> the result never holds three newlines in a row, that is never two blank lines in
    a row;
  \<^item> the result is trimmed;
  \<^item> a stretch of whitespace with two or more newlines between two visible characters
    (one or more blank lines, so in particular three, four or more) leaves exactly one
    blank line at that position.
\<close>

theorem normalize_paragraphs_lines_and_blank_runs:
  "filter (\<lambda>l. l \<noteq> []) (split_on NL (normalize_paragraphs raw)) =
     filter (\<lambda>l. l \<noteq> []) (map clean_spaces (split_on NL raw))
   \<and> strip (clean_spaces l) = clean_spaces l
   \<and> (\<forall>c\<in>set (clean_spaces l). isspace c \<longrightarrow> c = SP)
   \<and> \<not> (\<exists>a c d b. clean_spaces l = a @ [c, d] @ b \<and> isspace c \<and> isspace d)
   \<and> \<not> (\<exists>a b. normalize_paragraphs raw = a @ [NL, NL, NL] @ b)
   \<and> strip (normalize_paragraphs raw) = normalize_paragraphs raw
   \<and> (p \<noteq> [] \<and> \<not> isspace (last p) \<and> q \<noteq> [] \<and> \<not> isspace (hd q) \<and>
        (\<forall>c\<in>set g. isspace c) \<and> 2 \<le> length (filter (\<lambda>c. c = NL) g) \<longrightarrow>
      normalize_paragraphs (p @ g @ q) =
        normalize_paragraphs p @ [NL, NL] @ normalize_paragraphs q)"
proof -
  have a: "filter (\<lambda>l. l \<noteq> []) (split_on NL (normalize_paragraphs raw)) =
     filter (\<lambda>l. l \<noteq> []) (map clean_spaces (split_on NL raw))"
    using normalize_paragraphs_lines [of raw] by (simp add: nonblank_def)
  have b: "strip (normalize_paragraphs raw) = normalize_paragraphs raw"
    by (simp add: normalize_paragraphs_text strip_idem)
  have c: "p \<noteq> [] \<and> \<not> isspace (last p) \<and> q \<noteq> [] \<and> \<not> isspace (hd q) \<and>
        (\<forall>c\<in>set g. isspace c) \<and> 2 \<le> length (filter (\<lambda>c. c = NL) g) \<longrightarrow>
      normalize_paragraphs (p @ g @ q) =
        normalize_paragraphs p @ [NL, NL] @ normalize_paragraphs q"
    using normalize_paragraphs_gap [of p q g] by (simp add: nls_def)
  from a b c clean_spaces_normal [of l] normalize_paragraphs_no_nl3 [of raw]
  show ?thesis by blast
qed

theorem normalize_paragraphs_lines_and_blank_runs_witness:
  "u ''a'' \<noteq> [] \<and> \<not> isspace (last (u ''a'')) \<and> u ''b c'' \<noteq> [] \<and> \<not> isspace (hd (u ''b c''))
   \<and> isspace NL \<and> isspace SP
   \<and> 2 \<le> length (filter (\<lambda>c. c = NL) [NL, SP, NL, NL, NL, NL])
   \<and> normalize_paragraphs (u ''a'' @ [NL, SP, NL, NL, NL, NL] @ u ''b c'') =
       u ''a'' @ [NL, NL] @ u ''b c''
   \<and> SP \<in> set (clean_spaces (u ''  x   y ''))
   \<and> clean_spaces (u ''  x   y '') = u ''x y''"
proof -
  have h: "u ''a'' \<noteq> [] \<and> \<not> isspace (last (u ''a'')) \<and> u ''b c'' \<noteq> [] \<and>
      \<not> isspace (hd (u ''b c'')) \<and> (\<forall>c\<in>set [NL, SP, NL, NL, NL, NL]. isspace c) \<and>
      2 \<le> length (filter (\<lambda>c. c = NL) [NL, SP, NL, NL, NL, NL])"
    by (simp add: u_def isspace_def NL_def SP_def)
  have e1: "normalize_paragraphs (u ''a'') = u ''a''"
    by (simp add: normalize_paragraphs_def u_def strip_def lstrip_def rstrip_def isspace_def
        NL_def SP_def sub_nl3_Cons)
  have e2: "normalize_paragraphs (u ''b c'') = u ''b c''"
    by (simp add: normalize_paragraphs_def u_def strip_def lstrip_def rstrip_def isspace_def
        NL_def SP_def sub_nl3_Cons)
  have e3: "clean_spaces (u ''  x   y '') = u ''x y''"
    by (simp add: clean_spaces_def u_def strip_def lstrip_def rstrip_def isspace_def SP_def)
  have e4: "SP \<in> set (u ''x y'')"
    by (simp add: u_def SP_def)
  from normalize_paragraphs_lines_and_blank_runs
    [of "u ''a'' @ [NL, SP, NL, NL, NL, NL] @ u ''b c''" "u ''  x   y ''" "u ''a''" "u ''b c''"
        "[NL, SP, NL, NL, NL, NL]"] h
  have "normalize_paragraphs (u ''a'' @ [NL, SP, NL, NL, NL, NL] @ u ''b c'') =
      normalize_paragraphs (u ''a'') @ [NL, NL] @ normalize_paragraphs (u ''b c'')"
    by blast
  with h e1 e2 e3 e4 show ?thesis by simp
qed

text \<open>
  C9. For every input string, \<open>safe_filename\<close> replaces each occurrence of the nine
  characters \<open>/ \ : * ? " < > |\<close> with an underscore and trims the surrounding
  whitespace: the input with the nine characters replaced is the output between two
  runs of whitespace, and the output neither begins nor ends with a whitespace
  character. None of the nine characters occurs in the output; and
  \<open>safe_filename("a/b:c*d?.pdf")\<close> is \<open>"a_b_c_d_.pdf"\<close>.
\<close>

theorem safe_filename_replaces_and_trims:
  "safe_filename s = strip (map (\<lambda>c. if c \<in> set unsafe_chars then underscore else c) s)
   \<and> (\<exists>a b. map (\<lambda>c. if c \<in> set unsafe_chars then underscore else c) s = a @ safe_filename s @ b
          \<and> filter (\<lambda>c. \<not> isspace c) a = [] \<and> filter (\<lambda>c. \<not> isspace c) b = [])
   \<and> takeWhile isspace (safe_filename s) = []
   \<and> takeWhile isspace (rev (safe_filename s)) = []
   \<and> set (safe_filename s) \<inter> set unsafe_chars = {}
   \<and> safe_filename (u ''a/b:c*d?.pdf'') = u ''a_b_c_d_.pdf''"
proof -
  let ?m = "map (\<lambda>c. if c \<in> set unsafe_chars then underscore else c) s"
  have a: "safe_filename s = strip ?m"
    using safe_filename_map [of s] by (simp add: sanitize_char_def [abs_def])
  obtain g1 g2 where g: "?m = g1 @ strip ?m @ g2" "\<forall>c\<in>set g1. isspace c" "\<forall>c\<in>set g2. isspace c"
    using raw_decomp [of ?m] by blast
  have d: "\<exists>a b. ?m = a @ safe_filename s @ b
          \<and> filter (\<lambda>c. \<not> isspace c) a = [] \<and> filter (\<lambda>c. \<not> isspace c) b = []"
    using g unfolding a [symmetric]
    by (intro exI [of _ g1] exI [of _ g2]) (simp add: filter_empty_conv)
  have e: "strip ?m = [] \<or> (\<not> isspace (hd (strip ?m)) \<and> \<not> isspace (last (strip ?m)))"
    by (rule strip_ends)
  have t1: "takeWhile isspace (safe_filename s) = []"
    using e unfolding a [symmetric] by (cases "safe_filename s") auto
  have t2: "takeWhile isspace (rev (safe_filename s)) = []"
    using e unfolding a [symmetric]
    by (cases "safe_filename s" rule: rev_cases) auto
  have "set (safe_filename s) \<subseteq> sanitize_char ` set s"
    using set_strip [of "map sanitize_char s"] by (simp add: safe_filename_map)
  then have b: "set (safe_filename s) \<inter> set unsafe_chars = {}"
    using sanitize_char_safe by auto
  from a d t1 t2 b safe_filename_example show ?thesis by blast
qed

text \<open>
  C10. \<open>safe_filename\<close> is idempotent: applying it to its own output changes nothing.
\<close>

theorem safe_filename_idempotent:
  "safe_filename (safe_filename s) = safe_filename s"
proof -
  have "safe_filename (safe_filename s) = strip (map sanitize_char (strip (map sanitize_char s)))"
    by (simp add: safe_filename_map)
  also have "\<dots> = strip (strip (map sanitize_char (map sanitize_char s)))"
    using strip_map [of sanitize_char "map sanitize_char s", OF isspace_sanitize_char]
    by simp
  also have "\<dots> = strip (map sanitize_char s)"
    by (simp add: strip_idem sanitize_char_idem comp_def)
  finally show ?thesis by (simp add: safe_filename_map)
qed

end
